theory Spec2Isabelle
  imports Main "HOL-Library.Word" "HOL-Library.Char_ord" "HOL-Library.List_Lexorder"
begin

unbundle bit_operations_syntax

section \<open>The Value model (value.h)\<close>

text \<open>
  \<^verbatim>\<open>enum class Type : char {undefined, null, boolean, number, string, array, object}\<close>.
\<close>

datatype Type =
    Type_undefined | Type_null | Type_boolean | Type_number
  | Type_string | Type_array | Type_object

text \<open>
  \<^verbatim>\<open>class Value\<close> is a 16 byte tagged union: the \<^verbatim>\<open>_storage\<close> tag and the
  union \<^verbatim>\<open>_un\<close>.  Every constructor below is one class of storage tags together
  with the member of the union that is active for it.

  \<^item> \<open>Short tag buf\<close>: the tags \<^verbatim>\<open>short_string_0 .. short_number_14\<close> (0..30); \<open>tag\<close> is
    the tag byte itself and \<open>buf\<close> the fifteen bytes of \<^verbatim>\<open>_un.short_str\<close>.
  \<^item> \<open>Long_string\<close>, \<open>Long_number\<close>: a reference counted \<^verbatim>\<open>Container<char>\<close>.
  \<^item> \<open>String_ref p sz\<close>, \<open>Number_ref p sz\<close>: \<^verbatim>\<open>StringRef {const char *ptr; uint32_t sz}\<close>;
    \<open>p\<close> is the character sequence that starts at \<^verbatim>\<open>ptr\<close>.
  \<^item> \<open>Array\<close>, \<open>Object\<close>: \<^verbatim>\<open>Container<Value>\<close> and \<^verbatim>\<open>Container<KeyValue>\<close>.  A
    \<^verbatim>\<open>KeyValue\<close> is a pair of a \<^verbatim>\<open>Key\<close> (a wrapper of one \<^verbatim>\<open>Value\<close>, its \<^verbatim>\<open>_str\<close>)
    and a \<^verbatim>\<open>Value\<close>.
  \<^item> \<open>Dnum\<close> holds the 64 bits of the IEEE-754 double.

  The storage \<^verbatim>\<open>custom_type\<close> (a pointer to a user supplied subclass of
  \<^verbatim>\<open>AbstractCustomValue\<close>, whose virtual methods are user code) is not part of the model.
\<close>

datatype Value =
    Short "8 word" string
  | Undefined
  | Null
  | Bool_false
  | Bool_true
  | Int32 "32 word"
  | Uint32 "32 word"
  | Int64 "64 word"
  | Uint64 "64 word"
  | Dnum "64 word"
  | Empty_array
  | Empty_object
  | Long_string string
  | Long_number string
  | Array "Value list"
  | Object "(Value \<times> Value) list"
  | String_ref string "32 word"
  | Number_ref string "32 word"

type_synonym KeyValue = "Value \<times> Value"

text \<open>The alternatives that \<^verbatim>\<open>Value::visit\<close> hands to its visitor.\<close>

datatype Visited =
    V_string_view string
  | V_Undefined
  | V_nullptr
  | V_bool bool
  | V_int32 "32 word"
  | V_uint32 "32 word"
  | V_int64 "64 word"
  | V_uint64 "64 word"
  | V_double "64 word"
  | V_Container_Value "Value list"
  | V_Container_KeyValue "KeyValue list"

fun visit :: "Value \<Rightarrow> Visited" where
  "visit (Short tag buf) = V_string_view (take (unat (tag AND 0xF)) buf)"
| "visit Undefined = V_Undefined"
| "visit Null = V_nullptr"
| "visit Bool_false = V_bool False"
| "visit Bool_true = V_bool True"
| "visit (Int32 x) = V_int32 x"
| "visit (Uint32 x) = V_uint32 x"
| "visit (Int64 x) = V_int64 x"
| "visit (Uint64 x) = V_uint64 x"
| "visit (Dnum d) = V_double d"
| "visit Empty_array = V_Container_Value []"
| "visit Empty_object = V_Container_KeyValue []"
| "visit (Array xs) = V_Container_Value xs"
| "visit (Object kvs) = V_Container_KeyValue kvs"
| "visit (Long_number s) = V_string_view s"
| "visit (Long_string s) = V_string_view s"
| "visit (Number_ref p sz) = V_string_view (take (unat sz) p)"
| "visit (String_ref p sz) = V_string_view (take (unat sz) p)"

text \<open>
  \<^verbatim>\<open>Value::Value(std::string_view str, bool is_number)\<close>.  The first argument of the
  model is the value of \<^verbatim>\<open>std::is_constant_evaluated()\<close> at the call.
\<close>

definition Value_string_view :: "bool \<Rightarrow> string \<Rightarrow> bool \<Rightarrow> Value" where
  "Value_string_view constant_evaluated str is_number =
     (if length str < 15 then
        Short ((if is_number then 16 else 0) OR of_nat (length str))
              (str @ replicate (15 - length str) (CHR 0x00))
      else if constant_evaluated then
        (if is_number then Number_ref str (of_nat (length str))
         else String_ref str (of_nat (length str)))
      else
        (if is_number then Long_number str else Long_string str))"

fun type :: "Value \<Rightarrow> Type" where
  "type (Short tag buf) = (if tag AND 0xF0 = 16 then Type_number else Type_string)"
| "type Undefined = Type_undefined"
| "type Null = Type_null"
| "type Bool_false = Type_boolean"
| "type Bool_true = Type_boolean"
| "type (Int32 x) = Type_number"
| "type (Uint32 x) = Type_number"
| "type (Int64 x) = Type_number"
| "type (Uint64 x) = Type_number"
| "type (Dnum d) = Type_number"
| "type Empty_array = Type_array"
| "type (Array xs) = Type_array"
| "type Empty_object = Type_object"
| "type (Object kvs) = Type_object"
| "type (Long_number s) = Type_number"
| "type (Number_ref p sz) = Type_number"
| "type (Long_string s) = Type_string"
| "type (String_ref p sz) = Type_string"

definition true_value :: string where "true_value = ''true''"
definition false_value :: string where "false_value = ''false''"
definition null_value :: string where "null_value = ''null''"
definition undefined_value :: string where "undefined_value = ''(undefined)''"

definition get_string :: "Value \<Rightarrow> string" where
  "get_string v =
     (case visit v of
        V_string_view a \<Rightarrow> a
      | V_bool a \<Rightarrow> (if a then true_value else false_value)
      | V_nullptr \<Rightarrow> null_value
      | V_Undefined \<Rightarrow> undefined_value
      | _ \<Rightarrow> [])"

definition defined :: "Value \<Rightarrow> bool" where
  "defined v = (v \<noteq> Undefined)"

definition size_Value :: "Value \<Rightarrow> nat" where
  "size_Value v =
     (case visit v of
        V_Container_Value a \<Rightarrow> length a
      | V_Container_KeyValue a \<Rightarrow> length a
      | _ \<Rightarrow> 0)"

subsection \<open>Keys and their order\<close>

text \<open>
  \<^verbatim>\<open>std::string_view::compare\<close> (the C++ library): the common prefix is compared byte by
  byte as \<^verbatim>\<open>unsigned char\<close>, then the lengths.  Only the sign of the result is used.
\<close>

fun compare :: "string \<Rightarrow> string \<Rightarrow> int" where
  "compare [] [] = 0"
| "compare [] (y # ys) = - 1"
| "compare (x # xs) [] = 1"
| "compare (x # xs) (y # ys) =
     (if (of_char x :: nat) < of_char y then - 1
      else if (of_char y :: nat) < of_char x then 1
      else compare xs ys)"

text \<open>\<^verbatim>\<open>kv.key.get_string()\<close> of a \<^verbatim>\<open>KeyValue\<close>.\<close>

definition key_string :: "KeyValue \<Rightarrow> string" where
  "key_string kv = get_string (fst kv)"

text \<open>
  \<^verbatim>\<open>Value::sort_object\<close> calls \<^verbatim>\<open>std::sort\<close> with the comparator \<open>key_less\<close>.  The
  library promises a permutation ordered by the comparator and leaves the order of
  entries with equal keys open; the model is insertion sort, which is what the library
  runs on short ranges.
\<close>

definition key_less :: "KeyValue \<Rightarrow> KeyValue \<Rightarrow> bool" where
  "key_less a b = (compare (key_string a) (key_string b) < 0)"

fun sort_insert :: "KeyValue \<Rightarrow> KeyValue list \<Rightarrow> KeyValue list" where
  "sort_insert a [] = [a]"
| "sort_insert a (b # bs) = (if key_less a b then a # b # bs else b # sort_insert a bs)"

definition sort_object :: "KeyValue list \<Rightarrow> KeyValue list" where
  "sort_object ptr = foldl (\<lambda>sorted_part a. sort_insert a sorted_part) [] ptr"

subsection \<open>Equality\<close>

text \<open>
  The comparison \<^verbatim>\<open>a == b\<close> of two doubles, on their bit patterns: a NaN equals
  nothing, the two zeros are equal, everything else is equal to itself only.
\<close>

definition double_isnan :: "64 word \<Rightarrow> bool" where
  "double_isnan d =
     (d AND 0x7FF0000000000000 = 0x7FF0000000000000 \<and> d AND 0x000FFFFFFFFFFFFF \<noteq> 0)"

definition double_eq :: "64 word \<Rightarrow> 64 word \<Rightarrow> bool" where
  "double_eq a b =
     (\<not> double_isnan a \<and> \<not> double_isnan b
      \<and> (a = b \<or> (a AND 0x7FFFFFFFFFFFFFFF = 0 \<and> b AND 0x7FFFFFFFFFFFFFFF = 0)))"

lemma visit_array_size:
  "visit a = V_Container_Value xs \<Longrightarrow> x \<in> set xs \<Longrightarrow> size x < size a"
  by (cases a) (auto simp: less_Suc_eq_le size_list_estimation')

lemma visit_object_size:
  assumes v: "visit a = V_Container_KeyValue kvs" and m: "(k, v) \<in> set kvs"
  shows "size k < size a \<and> size v < size a"
proof -
  have "size_prod size size (k, v) \<le> size_list (size_prod size size) kvs"
    using m by (simp add: size_list_estimation')
  then have "size k < size_list (size_prod size size) kvs + 1"
    and "size v < size_list (size_prod size size) kvs + 1"
    by simp_all
  with v m show ?thesis
    by (cases a) auto
qed

text \<open>
  \<^verbatim>\<open>Value::operator==\<close>: both sides are visited; an undefined side gives false, two
  different alternatives give false, two equal alternatives are compared with their
  own \<^verbatim>\<open>==\<close>.  \<^verbatim>\<open>Container::operator==\<close> compares the sizes and then the elements; the
  model is the comparison of two containers that do not share their buffer (the code
  answers true at once for two handles of one buffer).  A \<^verbatim>\<open>KeyValue\<close> compares key and
  value, a \<^verbatim>\<open>Key\<close> compares its \<^verbatim>\<open>_str\<close>.
\<close>

function equal :: "Value \<Rightarrow> Value \<Rightarrow> bool" where
  "equal this other =
     (case visit this of
        V_Undefined \<Rightarrow> False
      | V_string_view a \<Rightarrow> (case visit other of V_string_view b \<Rightarrow> a = b | _ \<Rightarrow> False)
      | V_nullptr \<Rightarrow> (case visit other of V_nullptr \<Rightarrow> True | _ \<Rightarrow> False)
      | V_bool a \<Rightarrow> (case visit other of V_bool b \<Rightarrow> a = b | _ \<Rightarrow> False)
      | V_int32 a \<Rightarrow> (case visit other of V_int32 b \<Rightarrow> a = b | _ \<Rightarrow> False)
      | V_uint32 a \<Rightarrow> (case visit other of V_uint32 b \<Rightarrow> a = b | _ \<Rightarrow> False)
      | V_int64 a \<Rightarrow> (case visit other of V_int64 b \<Rightarrow> a = b | _ \<Rightarrow> False)
      | V_uint64 a \<Rightarrow> (case visit other of V_uint64 b \<Rightarrow> a = b | _ \<Rightarrow> False)
      | V_double a \<Rightarrow> (case visit other of V_double b \<Rightarrow> double_eq a b | _ \<Rightarrow> False)
      | V_Container_Value a \<Rightarrow>
          (case visit other of V_Container_Value b \<Rightarrow> list_all2 equal a b | _ \<Rightarrow> False)
      | V_Container_KeyValue a \<Rightarrow>
          (case visit other of
             V_Container_KeyValue b \<Rightarrow>
               list_all2 (\<lambda>x y. equal (fst x) (fst y) \<and> equal (snd x) (snd y)) a b
           | _ \<Rightarrow> False))"
  by pat_completeness auto
termination
  by (relation "measure (\<lambda>(a, b). size a)")
     (auto dest: visit_array_size visit_object_size)

declare equal.simps [simp del]

subsection \<open>Access by key and by index\<close>

text \<open>
  \<^verbatim>\<open>std::lower_bound\<close> (the C++ library) over the entries \<open>item\<close>, searching \<open>key\<close> in
  the range of \<open>len\<close> entries that starts at \<open>first\<close>; the comparator of
  \<^verbatim>\<open>Value::operator[](const std::string_view &)\<close> compares the key strings.  The model
  is the library's bisection.
\<close>

function lower_bound :: "KeyValue list \<Rightarrow> string \<Rightarrow> nat \<Rightarrow> nat \<Rightarrow> nat" where
  "lower_bound item key first len =
     (if 0 < len then
        (let half = len div 2; middle = first + half in
         if compare (key_string (item ! middle)) key < 0
         then lower_bound item key (middle + 1) (len - half - 1)
         else lower_bound item key first half)
      else first)"
  by pat_completeness auto
termination
  by (relation "measure (\<lambda>(item, key, first, len). len)") auto

declare lower_bound.simps [simp del]

text \<open>\<^verbatim>\<open>Value::operator[](const std::string_view &key)\<close>; the result \<open>Undefined\<close> is the shared constant \<^verbatim>\<open>undefined\<close>.\<close>

definition subscript_key :: "Value \<Rightarrow> string \<Rightarrow> Value" where
  "subscript_key this key =
     (case visit this of
        V_Container_KeyValue item \<Rightarrow>
          (let iter = lower_bound item key 0 (length item) in
           if iter = length item \<or> key_string (item ! iter) \<noteq> key then Undefined
           else snd (item ! iter))
      | _ \<Rightarrow> Undefined)"

text \<open>\<^verbatim>\<open>Value::operator[](unsigned int index)\<close>.\<close>

definition subscript_index :: "Value \<Rightarrow> 32 word \<Rightarrow> Value" where
  "subscript_index this index =
     (case visit this of
        V_Container_KeyValue item \<Rightarrow>
          (if length item \<le> unat index then Undefined else snd (item ! unat index))
      | V_Container_Value item \<Rightarrow>
          (if length item \<le> unat index then Undefined else item ! unat index)
      | _ \<Rightarrow> Undefined)"

text \<open>\<^verbatim>\<open>Value::keys()\<close>: the range of \<^verbatim>\<open>KeyAccess\<close>, empty unless the storage is \<^verbatim>\<open>object\<close>.\<close>

definition keys :: "Value \<Rightarrow> KeyValue list" where
  "keys owner = (case owner of Object kvs \<Rightarrow> kvs | _ \<Rightarrow> [])"

subsection \<open>merge_keys\<close>

text \<open>
  The three while statements of \<^verbatim>\<open>Value::merge_keys\<close>: the first runs while both ranges have an
  entry, the second copies what is left of the receiver, the third copies the defined
  entries that are left of the argument.  The result of the function is what was
  written through \<^verbatim>\<open>out\<close>.
\<close>

fun merge_loop :: "KeyValue list \<Rightarrow> KeyValue list \<Rightarrow> KeyValue list" where
  "merge_loop (itm1 # rest1) (itm2 # rest2) =
     (let c = compare (key_string itm1) (key_string itm2) in
      if c < 0 then itm1 # merge_loop rest1 (itm2 # rest2)
      else if 0 < c then
        (if defined (snd itm2) then itm2 # merge_loop (itm1 # rest1) rest2
         else merge_loop (itm1 # rest1) rest2)
      else if defined (snd itm2) then itm2 # merge_loop rest1 rest2
      else merge_loop rest1 rest2)"
| "merge_loop iter1 iter2 = iter1 @ filter (\<lambda>kv. defined (snd kv)) iter2"

definition merge_keys :: "Value \<Rightarrow> Value \<Rightarrow> Value" where
  "merge_keys this changes = Object (merge_loop (keys this) (keys changes))"

subsection \<open>Constructors of containers\<close>

text \<open>
  \<^verbatim>\<open>Value(const std::vector<KeyValue> &)\<close> (\<^verbatim>\<open>init_object\<close>),
  \<^verbatim>\<open>Value(const std::vector<Value> &)\<close> (\<^verbatim>\<open>init_array\<close>), the constructor
  \<^verbatim>\<open>KeyValue(std::string_view key, const Value &v)\<close> and
  \<^verbatim>\<open>Value(std::initializer_list<Value>)\<close>.
\<close>

definition Value_KeyValues :: "KeyValue list \<Rightarrow> Value" where
  "Value_KeyValues obj = (if obj = [] then Empty_object else Object (sort_object obj))"

definition Value_Values :: "Value list \<Rightarrow> Value" where
  "Value_Values arr = (if arr = [] then Empty_array else Array arr)"

definition KeyValue :: "string \<Rightarrow> Value \<Rightarrow> KeyValue" where
  "KeyValue key v = (Value_string_view False key False, v)"

definition Value_initializer_list :: "Value list \<Rightarrow> Value" where
  "Value_initializer_list list =
     (let is_object = list_all (\<lambda>v. type v = Type_array \<and> size_Value v = 2
                                  \<and> type (subscript_index v 0) = Type_string) list
      in if is_object then
           Object (sort_object (map (\<lambda>v. KeyValue (get_string (subscript_index v 0)) (subscript_index v 1)) list))
         else Array list)"




text \<open>The entries of an object, as \<^verbatim>\<open>visit\<close> shows them.\<close>

definition entries :: "Value \<Rightarrow> KeyValue list" where
  "entries v = (case visit v of V_Container_KeyValue item \<Rightarrow> item | _ \<Rightarrow> [])"

section \<open>The parser (common.h, parser.h)\<close>

text \<open>\<^verbatim>\<open>enum class Format {text, binary}\<close> and the constants of the namespace \<^verbatim>\<open>BinaryType\<close>.\<close>

datatype Format = Format_text | Format_binary

definition BinaryType_mask :: "8 word" where "BinaryType_mask = 0xF8"
definition BinaryType_size_mask :: "8 word" where "BinaryType_size_mask = 0x7"
definition BinaryType_simple :: "8 word" where "BinaryType_simple = 0x00"
definition BinaryType_null :: "8 word" where "BinaryType_null = 0x00"
definition BinaryType_bool_true :: "8 word" where "BinaryType_bool_true = 0x01"
definition BinaryType_bool_false :: "8 word" where "BinaryType_bool_false = 0x02"
definition BinaryType_double_number :: "8 word" where "BinaryType_double_number = 0x03"
definition BinaryType_undefined :: "8 word" where "BinaryType_undefined = 0x07"
definition BinaryType_p_number :: "8 word" where "BinaryType_p_number = 0x10"
definition BinaryType_n_number :: "8 word" where "BinaryType_n_number = 0x18"
definition BinaryType_string :: "8 word" where "BinaryType_string = 0x20"
definition BinaryType_string_number :: "8 word" where "BinaryType_string_number = 0x28"
definition BinaryType_array :: "8 word" where "BinaryType_array = 0x30"
definition BinaryType_object :: "8 word" where "BinaryType_object = 0x38"

text \<open>The constants \<^verbatim>\<open>infinity\<close> and \<^verbatim>\<open>neg_infinity\<close> of value.h: the UTF-8 bytes of the infinity sign.\<close>

definition infinity :: string where
  "infinity = [CHR 0xE2, CHR 0x88, CHR 0x9E]"

definition neg_infinity :: string where
  "neg_infinity = CHR ''-'' # infinity"

text \<open>\<^verbatim>\<open>std::isspace\<close> and \<^verbatim>\<open>std::isdigit\<close> of the C locale.\<close>

definition isspace :: "char \<Rightarrow> bool" where
  "isspace c = (c = CHR 0x20 \<or> c = CHR 0x09 \<or> c = CHR 0x0A \<or> c = CHR 0x0B
               \<or> c = CHR 0x0C \<or> c = CHR 0x0D)"

definition isdigit :: "char \<Rightarrow> bool" where
  "isdigit c = (CHR ''0'' \<le> c \<and> c \<le> CHR ''9'')"

text \<open>The frames of the parser.  \<^verbatim>\<open>State\<close> is the variant of all of them; the template picks the
  first six for the text format and \<^verbatim>\<open>DetectType\<close> with the last five for the binary format.
  The fields are in the order of the source: \<^verbatim>\<open>StateCheck {what, result, pos}\<close>, \<^verbatim>\<open>StateString {_escape, _data}\<close>,
  \<^verbatim>\<open>StateNumber {_data}\<close>, \<^verbatim>\<open>StateArray {_data}\<close>, \<^verbatim>\<open>StateObject {_reading_key, key, _data}\<close>, \<^verbatim>\<open>StateDoubleNumber {_data}\<close>,
  \<^verbatim>\<open>StateBinNumber {size, negative, accum}\<close>, \<^verbatim>\<open>StateBinString {is_number, sz, data}\<close>, \<^verbatim>\<open>StateBinArray {sz, data}\<close>,
  \<^verbatim>\<open>StateBinObject {_reading_key, key, data, sz}\<close>.\<close>

datatype State =
    DetectType
  | StateCheck string Value nat
  | StateString bool string
  | StateNumber string
  | StateArray "Value list"
  | StateObject bool Value "KeyValue list"
  | StateDoubleNumber string
  | StateBinNumber "8 word" bool "64 word"
  | StateBinString bool "64 word" string
  | StateBinArray "64 word" "Value list"
  | StateBinObject bool Value "KeyValue list" "64 word"

text \<open>The members of \<^verbatim>\<open>Parser\<close>: the stack \<^verbatim>\<open>_state\<close> (the head of the list is \<^verbatim>\<open>_state.back()\<close>), the
  unread rest of the chunk (the bytes from \<^verbatim>\<open>_pos\<close> to \<^verbatim>\<open>_end\<close>), \<^verbatim>\<open>_result\<close> and \<^verbatim>\<open>_is_error\<close>.
  The preprocessor is the default one, \<^verbatim>\<open>ParserEmptyPreprocesor\<close>, the identity.\<close>

record Parser =
  p_state :: "State list"
  p_pos :: string
  p_result :: Value
  p_is_error :: bool

definition Parser_init :: Parser where
  "Parser_init = \<lparr>p_state = [DetectType], p_pos = [], p_result = Undefined, p_is_error = False\<rparr>"

definition push_back :: "State \<Rightarrow> Parser \<Rightarrow> Parser" where
  "push_back st p = p\<lparr>p_state := st # p_state p\<rparr>"

definition set_back :: "State \<Rightarrow> Parser \<Rightarrow> Parser" where
  "set_back st p = p\<lparr>p_state := st # tl (p_state p)\<rparr>"

text \<open>The three argument \<^verbatim>\<open>std::equal\<close> of the C++ library: every byte of the first range is
  compared with the byte at the same place of the second.  The second range is the three
  byte literal; a first range longer than that leaves the literal and is answered false.\<close>

fun std_equal :: "string \<Rightarrow> string \<Rightarrow> bool" where
  "std_equal [] ys = True"
| "std_equal (x # xs) [] = False"
| "std_equal (x # xs) (y # ys) = (x = y \<and> std_equal xs ys)"

text \<open>\<^verbatim>\<open>is_valid_json_number(beg, end)\<close>; \<open>beg1\<close>, \<open>beg2\<close>, ... are the values of
  \<^verbatim>\<open>beg\<close> after the sign, the integer part, the fraction and the exponent mark.\<close>

definition is_valid_json_number :: "string \<Rightarrow> bool" where
  "is_valid_json_number s =
     (if s = [] then False
      else
        let beg1 = (if hd s = CHR ''-'' then tl s else s) in
        if hd s = CHR ''-'' \<and> beg1 = [] then False
        else if std_equal beg1 infinity then True
        else if \<not> (hd beg1 = CHR ''0'') \<and> \<not> isdigit (hd beg1) then False
        else
          let beg2 = (if hd beg1 = CHR ''0'' then tl beg1 else dropWhile isdigit beg1) in
          if beg2 \<noteq> [] \<and> hd beg2 = CHR ''.'' \<and> (tl beg2 = [] \<or> \<not> isdigit (hd (tl beg2))) then False
          else
            let beg3 = (if beg2 \<noteq> [] \<and> hd beg2 = CHR ''.'' then dropWhile isdigit (tl beg2) else beg2) in
            if beg3 \<noteq> [] \<and> (hd beg3 = CHR ''e'' \<or> hd beg3 = CHR ''E'') then
              (let beg4 = tl beg3;
                   beg5 = (if beg4 \<noteq> [] \<and> (hd beg4 = CHR ''+'' \<or> hd beg4 = CHR ''-'') then tl beg4 else beg4)
               in if beg5 = [] \<or> \<not> isdigit (hd beg5) then False
                  else dropWhile isdigit beg5 = [])
            else beg3 = [])"

text \<open>\<^verbatim>\<open>_details::hex_to_int\<close>.\<close>

definition hex_to_int :: "char \<Rightarrow> int" where
  "hex_to_int hex =
     (if CHR ''0'' \<le> hex \<and> hex \<le> CHR ''9'' then of_char hex - of_char CHR ''0''
      else if CHR ''A'' \<le> hex \<and> hex \<le> CHR ''F'' then of_char hex - of_char CHR ''A'' + 10
      else if CHR ''a'' \<le> hex \<and> hex \<le> CHR ''f'' then of_char hex - of_char CHR ''a'' + 10
      else 0)"

text \<open>The loop \<^verbatim>\<open>for (int i = 0; i < 4 && it != end; ++i)\<close> that reads up to four hex digits;
  \<open>n\<close> is the number of rounds left.\<close>

fun read_hex :: "nat \<Rightarrow> string \<Rightarrow> nat \<Rightarrow> int \<Rightarrow> int \<times> nat" where
  "read_hex 0 buf it codepoint = (codepoint, it)"
| "read_hex (Suc n) buf it codepoint =
     (if it = length buf then (codepoint, it)
      else read_hex n buf (it + 1) (push_bit 4 codepoint OR hex_to_int (buf ! it)))"

text \<open>The bytes written for \<open>codepoint\<close>; the last of them is written without advancing
  \<^verbatim>\<open>output\<close>.  Above \<open>0x10FFFF\<close> nothing is written.\<close>

definition utf8_bytes :: "int \<Rightarrow> string" where
  "utf8_bytes codepoint =
     (if codepoint \<le> 0x7F then [char_of codepoint]
      else if codepoint \<le> 0x7FF then
        [char_of (0xC0 OR (drop_bit 6 codepoint AND 0x1F)), char_of (0x80 OR (codepoint AND 0x3F))]
      else if codepoint \<le> 0xFFFF then
        [char_of (0xE0 OR (drop_bit 12 codepoint AND 0x0F)),
         char_of (0x80 OR (drop_bit 6 codepoint AND 0x3F)),
         char_of (0x80 OR (codepoint AND 0x3F))]
      else if codepoint \<le> 0x10FFFF then
        [char_of (0xF0 OR (drop_bit 18 codepoint AND 0x07)),
         char_of (0x80 OR (drop_bit 12 codepoint AND 0x3F)),
         char_of (0x80 OR (drop_bit 6 codepoint AND 0x3F)),
         char_of (0x80 OR (codepoint AND 0x3F))]
      else [])"

text \<open>Writing the bytes \<open>bs\<close> through \<^verbatim>\<open>output\<close>, which is advanced after every byte but the last.\<close>

lemma read_hex_ge: "read_hex n buf it codepoint = (c, it') \<Longrightarrow> it \<le> it'"
  by (induction n buf it codepoint rule: read_hex.induct) (auto split: if_splits)

fun put_bytes :: "string \<Rightarrow> nat \<Rightarrow> string \<Rightarrow> string \<times> nat" where
  "put_bytes buf output [] = (buf, output)"
| "put_bytes buf output [b] = (buf[output := b], output)"
| "put_bytes buf output (b # bs) = put_bytes (buf[output := b]) (output + 1) bs"

lemma put_bytes_length: "put_bytes buf output bs = (buf', output') \<Longrightarrow> length buf' = length buf"
  by (induction buf "output" bs arbitrary: buf' output' rule: put_bytes.induct) auto

text \<open>\<^verbatim>\<open>decode_json_string\<close>, called as the parser calls it, with the output at the begin of
  the buffer that is being read: \<open>buf\<close> is the buffer, \<open>it\<close> the index of the read
  iterator (which never passes the end, so that \<^verbatim>\<open>it != end\<close> is \<open>it < length buf\<close>) and
  \<open>output\<close> the index of the write iterator.  After the \<^verbatim>\<open>switch\<close> the source runs
  \<^verbatim>\<open>++output\<close> in every case, also in the \<^verbatim>\<open>default\<close> case that wrote nothing.  The result
  is the buffer and the returned output iterator.\<close>

function decode_json_string :: "string \<Rightarrow> nat \<Rightarrow> nat \<Rightarrow> string \<times> nat" where
  "decode_json_string buf it output =
     (if length buf \<le> it then (buf, output)
      else if buf ! it = CHR 0x5C then
        (let it1 = it + 1 in
         if it1 = length buf then (buf, output)
         else
           let c = buf ! it1 in
           if c = CHR 0x22 \<or> c = CHR 0x5C \<or> c = CHR ''/'' then
             decode_json_string (buf[output := c]) (it1 + 1) (output + 1)
           else if c = CHR ''b'' then decode_json_string (buf[output := CHR 0x08]) (it1 + 1) (output + 1)
           else if c = CHR ''f'' then decode_json_string (buf[output := CHR 0x0C]) (it1 + 1) (output + 1)
           else if c = CHR ''n'' then decode_json_string (buf[output := CHR 0x0A]) (it1 + 1) (output + 1)
           else if c = CHR ''r'' then decode_json_string (buf[output := CHR 0x0D]) (it1 + 1) (output + 1)
           else if c = CHR ''t'' then decode_json_string (buf[output := CHR 0x09]) (it1 + 1) (output + 1)
           else if c = CHR ''u'' then
             (let (codepoint, it2) = read_hex 4 buf (it1 + 1) 0 in
              if 0xD800 \<le> codepoint \<and> codepoint \<le> 0xDBFF then
                (if it2 = length buf \<or> buf ! it2 \<noteq> CHR 0x5C then (buf, output)
                 else if it2 + 1 = length buf \<or> buf ! (it2 + 1) \<noteq> CHR ''u'' then (buf, output)
                 else
                   let (second_codepoint, it3) = read_hex 4 buf (it2 + 2) 0;
                       codepoint = 0x10000 + push_bit 10 (codepoint - 0xD800) + (second_codepoint - 0xDC00);
                       (buf', output') = put_bytes buf output (utf8_bytes codepoint)
                   in decode_json_string buf' it3 (output' + 1))
              else
                let (buf', output') = put_bytes buf output (utf8_bytes codepoint)
                in decode_json_string buf' it2 (output' + 1))
           else decode_json_string buf (it1 + 1) (output + 1))
      else decode_json_string (buf[output := buf ! it]) (it + 1) (output + 1))"
  by pat_completeness auto
termination
proof -
  have hex: "\<And>n buf it cp c it'. (c, it') = read_hex n buf it cp \<Longrightarrow> it \<le> it'"
    by (metis read_hex_ge)
  have put: "\<And>buf out bs buf' out'. (buf', out') = put_bytes buf out bs \<Longrightarrow> length buf' = length buf"
    by (metis put_bytes_length)
  show ?thesis
    by (relation "measure (\<lambda>(buf, it, out). length buf - it)")
       (auto dest!: hex put)
qed

declare decode_json_string.simps [simp del]

text \<open>The call in \<^verbatim>\<open>parse_state(StateString &)\<close> followed by \<^verbatim>\<open>st._data.resize\<close>.\<close>

definition decode_in_place :: "string \<Rightarrow> string" where
  "decode_in_place data = (let (buf, output) = decode_json_string data 0 0 in take output buf)"

text \<open>\<^verbatim>\<open>parse_state(DetectType &)\<close> for the text format.\<close>

function parse_state_DetectType_text :: "Parser \<Rightarrow> bool \<times> Parser" where
  "parse_state_DetectType_text p =
     (case p_pos p of
        [] \<Rightarrow> (True, p)
      | c # cs \<Rightarrow>
          if isspace c then parse_state_DetectType_text (p\<lparr>p_pos := cs\<rparr>)
          else if c = CHR ''['' then (True, push_back (StateArray []) (p\<lparr>p_pos := cs\<rparr>))
          else if c = CHR ''{'' then (True, push_back (StateObject True Undefined []) (p\<lparr>p_pos := cs\<rparr>))
          else if c = CHR 0x22 then (True, push_back (StateString False []) (p\<lparr>p_pos := cs\<rparr>))
          else if c = CHR ''t'' then (True, push_back (StateCheck ''true'' Bool_true 0) p)
          else if c = CHR ''f'' then (True, push_back (StateCheck ''false'' Bool_false 0) p)
          else if c = CHR ''n'' then (True, push_back (StateCheck ''null'' Null 0) p)
          else if isdigit c \<or> c = CHR ''-'' \<or> c = CHR ''+'' then (True, push_back (StateNumber []) p)
          else (False, p\<lparr>p_is_error := True\<rparr>))"
  by pat_completeness auto
termination
  by (relation "measure (\<lambda>p. length (p_pos p))") auto

declare parse_state_DetectType_text.simps [simp del]

text \<open>\<^verbatim>\<open>parse_state(DetectType &)\<close> for the binary format.\<close>

definition parse_state_DetectType_binary :: "Parser \<Rightarrow> bool \<times> Parser" where
  "parse_state_DetectType_binary p =
     (case p_pos p of
        [] \<Rightarrow> (True, p)
      | c # cs \<Rightarrow>
          let p = p\<lparr>p_pos := cs\<rparr>;
              type' = (of_char c :: 8 word);
              maj = type' AND BinaryType_mask;
              sz = (type' AND BinaryType_size_mask) + 1
          in
          if maj = BinaryType_simple then
            (if type' = BinaryType_null then (False, p\<lparr>p_result := Null\<rparr>)
             else if type' = BinaryType_bool_true then (False, p\<lparr>p_result := Bool_true\<rparr>)
             else if type' = BinaryType_bool_false then (False, p\<lparr>p_result := Bool_false\<rparr>)
             else if type' = BinaryType_double_number then (True, push_back (StateDoubleNumber []) p)
             else (False, p\<lparr>p_result := Undefined\<rparr>))
          else if maj = BinaryType_p_number then (True, push_back (StateBinNumber sz False 0) p)
          else if maj = BinaryType_n_number then (True, push_back (StateBinNumber sz True 0) p)
          else if maj = BinaryType_string then
            (True, push_back (StateBinNumber sz False 0) (push_back (StateBinString False 0 []) p))
          else if maj = BinaryType_string_number then
            (True, push_back (StateBinNumber sz False 0) (push_back (StateBinString True 0 []) p))
          else if maj = BinaryType_array then
            (True, push_back (StateBinNumber sz False 0) (push_back (StateBinArray 0 []) p))
          else if maj = BinaryType_object then
            (True, push_back (StateBinNumber sz False 0) (push_back (StateBinObject False Undefined [] 0) p))
          else (False, p\<lparr>p_is_error := True\<rparr>))"

text \<open>The other \<^verbatim>\<open>parse_state\<close> functions.  The fields of the frame on top of the stack are
  arguments; a function that changed them writes the frame back before it returns.\<close>

function parse_state_StateString :: "bool \<Rightarrow> string \<Rightarrow> Parser \<Rightarrow> bool \<times> Parser" where
  "parse_state_StateString escape data p =
     (case p_pos p of
        [] \<Rightarrow> (True, set_back (StateString escape data) p)
      | c # cs \<Rightarrow>
          if \<not> escape \<and> c = CHR 0x22 then
            (let data = decode_in_place data
             in (False, set_back (StateString escape data)
                          (p\<lparr>p_pos := cs, p_result := Value_string_view False data False\<rparr>)))
          else
            parse_state_StateString (\<not> escape \<and> c = CHR 0x5C) (data @ [c]) (p\<lparr>p_pos := cs\<rparr>))"
  by pat_completeness auto
termination
  by (relation "measure (\<lambda>(escape, data, p). length (p_pos p))") auto

declare parse_state_StateString.simps [simp del]

function parse_state_StateArray :: "Value list \<Rightarrow> Parser \<Rightarrow> bool \<times> Parser" where
  "parse_state_StateArray data p =
     (case p_pos p of
        [] \<Rightarrow> (True, p)
      | c # cs \<Rightarrow>
          if \<not> isspace c then
            (if c = CHR '','' \<and> data \<noteq> [] then (True, push_back DetectType (p\<lparr>p_pos := cs\<rparr>))
             else if c = CHR '']'' then
               (False, set_back (StateArray []) (p\<lparr>p_pos := cs, p_result := Value_Values data\<rparr>))
             else if c \<noteq> CHR '','' \<and> data = [] then (True, push_back DetectType p)
             else (False, p\<lparr>p_is_error := True\<rparr>))
          else parse_state_StateArray data (p\<lparr>p_pos := cs\<rparr>))"
  by pat_completeness auto
termination
  by (relation "measure (\<lambda>(data, p). length (p_pos p))") auto

declare parse_state_StateArray.simps [simp del]

function parse_state_StateObject :: "bool \<Rightarrow> Value \<Rightarrow> KeyValue list \<Rightarrow> Parser \<Rightarrow> bool \<times> Parser" where
  "parse_state_StateObject reading_key key data p =
     (case p_pos p of
        [] \<Rightarrow> (True, p)
      | c # cs \<Rightarrow>
          if \<not> isspace c then
            (if c = CHR '','' \<and> reading_key \<and> data \<noteq> [] then
               (True, push_back DetectType (p\<lparr>p_pos := cs\<rparr>))
             else if c = CHR '':'' \<and> \<not> reading_key then
               (True, push_back DetectType (p\<lparr>p_pos := cs\<rparr>))
             else if c = CHR ''}'' \<and> reading_key then
               (False, set_back (StateObject reading_key key [])
                         (p\<lparr>p_pos := cs, p_result := Value_KeyValues data\<rparr>))
             else if c \<noteq> CHR '','' \<and> c \<noteq> CHR '':'' \<and> c \<noteq> CHR ''}'' \<and> reading_key \<and> data = [] then
               (True, push_back DetectType p)
             else (False, p\<lparr>p_is_error := True\<rparr>))
          else parse_state_StateObject reading_key key data (p\<lparr>p_pos := cs\<rparr>))"
  by pat_completeness auto
termination
  by (relation "measure (\<lambda>(reading_key, key, data, p). length (p_pos p))") auto

declare parse_state_StateObject.simps [simp del]

function parse_state_StateCheck :: "string \<Rightarrow> Value \<Rightarrow> nat \<Rightarrow> Parser \<Rightarrow> bool \<times> Parser" where
  "parse_state_StateCheck what res pos p =
     (case p_pos p of
        [] \<Rightarrow> (True, set_back (StateCheck what res pos) p)
      | c # cs \<Rightarrow>
          if pos < length what \<and> what ! pos = c then
            (if pos + 1 = length what then
               (False, set_back (StateCheck what res (pos + 1)) (p\<lparr>p_pos := cs, p_result := res\<rparr>))
             else parse_state_StateCheck what res (pos + 1) (p\<lparr>p_pos := cs\<rparr>))
          else (False, set_back (StateCheck what res pos) (p\<lparr>p_is_error := True\<rparr>)))"
  by pat_completeness auto
termination
  by (relation "measure (\<lambda>(what, res, pos, p). length (p_pos p))") auto

declare parse_state_StateCheck.simps [simp del]

text \<open>\<^verbatim>\<open>parse_state(StateNumber &)\<close>.  When a byte outside the accepted set is met and the
  accumulated run is not a valid number, the body of the \<^verbatim>\<open>while\<close> statement changes
  nothing, and the statement runs again in the same state: the function is partial, and
  \<open>None\<close> means that the call does not return.\<close>

definition number_char :: "char \<Rightarrow> bool" where
  "number_char c = (isdigit c \<or> c = CHR ''+'' \<or> c = CHR ''-'' \<or> c = CHR ''e'' \<or> c = CHR ''E'' \<or> c = CHR ''.'')"

partial_function (option) parse_state_StateNumber :: "string \<Rightarrow> Parser \<Rightarrow> (bool \<times> Parser) option" where
  "parse_state_StateNumber data p =
     (case p_pos p of
        [] \<Rightarrow> Some (True, set_back (StateNumber data) p)
      | c # cs \<Rightarrow>
          if number_char c then parse_state_StateNumber (data @ [c]) (p\<lparr>p_pos := cs\<rparr>)
          else if is_valid_json_number data then
            Some (False, set_back (StateNumber data) (p\<lparr>p_result := Value_string_view False data True\<rparr>))
          else parse_state_StateNumber data p)"

text \<open>The eight bytes copied into a double; the byte order of the host is taken to be little endian.\<close>

fun double_from_bytes :: "string \<Rightarrow> 64 word" where
  "double_from_bytes [] = 0"
| "double_from_bytes (b # bs) = of_char b OR push_bit 8 (double_from_bytes bs)"

function parse_state_StateDoubleNumber :: "string \<Rightarrow> Parser \<Rightarrow> bool \<times> Parser" where
  "parse_state_StateDoubleNumber data p =
     (case p_pos p of
        [] \<Rightarrow> (True, set_back (StateDoubleNumber data) p)
      | c # cs \<Rightarrow>
          let data = data @ [c]; p = p\<lparr>p_pos := cs\<rparr> in
          if 8 \<le> length data then
            (False, set_back (StateDoubleNumber data) (p\<lparr>p_result := Dnum (double_from_bytes data)\<rparr>))
          else parse_state_StateDoubleNumber data p)"
  by pat_completeness auto
termination
  by (relation "measure (\<lambda>(data, p). length (p_pos p))") auto

declare parse_state_StateDoubleNumber.simps [simp del]

function parse_state_StateBinNumber :: "8 word \<Rightarrow> bool \<Rightarrow> 64 word \<Rightarrow> Parser \<Rightarrow> bool \<times> Parser" where
  "parse_state_StateBinNumber size' negative accum p =
     (case p_pos p of
        c # cs \<Rightarrow>
          if size' \<noteq> 0 then
            parse_state_StateBinNumber (size' - 1) negative (push_bit 8 accum OR of_char c) (p\<lparr>p_pos := cs\<rparr>)
          else
            (False, set_back (StateBinNumber size' negative accum)
                      (p\<lparr>p_result := (if negative then Int64 (- accum) else Uint64 accum)\<rparr>))
      | [] \<Rightarrow>
          if size' \<noteq> 0 then (True, set_back (StateBinNumber size' negative accum) p)
          else
            (False, set_back (StateBinNumber size' negative accum)
                      (p\<lparr>p_result := (if negative then Int64 (- accum) else Uint64 accum)\<rparr>)))"
  by pat_completeness auto
termination
  by (relation "measure (\<lambda>(size', negative, accum, p). length (p_pos p))") auto

declare parse_state_StateBinNumber.simps [simp del]

function parse_state_StateBinString :: "bool \<Rightarrow> 64 word \<Rightarrow> string \<Rightarrow> Parser \<Rightarrow> bool \<times> Parser" where
  "parse_state_StateBinString is_number sz data p =
     (case p_pos p of
        [] \<Rightarrow> (True, set_back (StateBinString is_number sz data) p)
      | c # cs \<Rightarrow>
          let data = data @ [c]; p = p\<lparr>p_pos := cs\<rparr> in
          if unat sz \<le> length data then
            (False, set_back (StateBinString is_number sz data)
                      (p\<lparr>p_result := Value_string_view False data is_number\<rparr>))
          else parse_state_StateBinString is_number sz data p)"
  by pat_completeness auto
termination
  by (relation "measure (\<lambda>(is_number, sz, data, p). length (p_pos p))") auto

declare parse_state_StateBinString.simps [simp del]

definition parse_state_StateBinArray :: "Value list \<Rightarrow> Parser \<Rightarrow> bool \<times> Parser" where
  "parse_state_StateBinArray data p = (False, p\<lparr>p_result := Value_Values data\<rparr>)"

definition parse_state_StateBinObject :: "KeyValue list \<Rightarrow> Parser \<Rightarrow> bool \<times> Parser" where
  "parse_state_StateBinObject data p = (False, p\<lparr>p_result := Value_KeyValues data\<rparr>)"

text \<open>\<^verbatim>\<open>parse_state\<close> on \<^verbatim>\<open>_state.back()\<close>.\<close>

definition parse_state :: "Format \<Rightarrow> State \<Rightarrow> Parser \<Rightarrow> (bool \<times> Parser) option" where
  "parse_state format st p =
     (case st of
        DetectType \<Rightarrow>
          Some (if format = Format_text then parse_state_DetectType_text p
                else parse_state_DetectType_binary p)
      | StateCheck what res pos \<Rightarrow> Some (parse_state_StateCheck what res pos p)
      | StateString escape data \<Rightarrow> Some (parse_state_StateString escape data p)
      | StateNumber data \<Rightarrow> parse_state_StateNumber data p
      | StateArray data \<Rightarrow> Some (parse_state_StateArray data p)
      | StateObject reading_key key data \<Rightarrow> Some (parse_state_StateObject reading_key key data p)
      | StateDoubleNumber data \<Rightarrow> Some (parse_state_StateDoubleNumber data p)
      | StateBinNumber size' negative accum \<Rightarrow> Some (parse_state_StateBinNumber size' negative accum p)
      | StateBinString is_number sz data \<Rightarrow> Some (parse_state_StateBinString is_number sz data p)
      | StateBinArray sz data \<Rightarrow> Some (parse_state_StateBinArray data p)
      | StateBinObject reading_key key data sz \<Rightarrow> Some (parse_state_StateBinObject data p))"

text \<open>The integer alternatives of \<^verbatim>\<open>get_unsigned_long()\<close>.  The frames that call it hold the result of the
  \<^verbatim>\<open>StateBinNumber\<close> frame that was above them, a \<^verbatim>\<open>uint64\<close>; the conversions of text and of doubles
  (\<^verbatim>\<open>strtoul\<close>, a floating point cast) are not modelled and give 0 here.\<close>

definition get_unsigned_long :: "Value \<Rightarrow> 64 word" where
  "get_unsigned_long v =
     (case visit v of
        V_int32 a \<Rightarrow> scast a
      | V_uint32 a \<Rightarrow> ucast a
      | V_int64 a \<Rightarrow> a
      | V_uint64 a \<Rightarrow> a
      | V_bool a \<Rightarrow> (if a then 1 else 0)
      | _ \<Rightarrow> 0)"

text \<open>\<^verbatim>\<open>finish_state\<close> on \<^verbatim>\<open>_state.back()\<close> with \<^verbatim>\<open>_result\<close>, after a frame was popped.\<close>

definition finish_state :: "State \<Rightarrow> Parser \<Rightarrow> bool \<times> Parser" where
  "finish_state st p =
     (let v = p_result p in
      case st of
        DetectType \<Rightarrow> (False, p\<lparr>p_result := v\<rparr>)
      | StateString escape data \<Rightarrow> (False, p)
      | StateArray data \<Rightarrow> (True, set_back (StateArray (data @ [v])) p)
      | StateObject reading_key key data \<Rightarrow>
          if reading_key then
            (if type v \<noteq> Type_string then (False, p\<lparr>p_is_error := True\<rparr>)
             else (True, set_back (StateObject False v data) p))
          else (True, set_back (StateObject True key (data @ [KeyValue (get_string key) v])) p)
      | StateCheck what res pos \<Rightarrow> (False, p)
      | StateNumber data \<Rightarrow> (False, p)
      | StateDoubleNumber data \<Rightarrow> (False, p)
      | StateBinNumber size' negative accum \<Rightarrow> (False, p)
      | StateBinString is_number sz data \<Rightarrow>
          (let sz = get_unsigned_long v in
           if sz = 0 then
             (False, set_back (StateBinString is_number sz data)
                       (p\<lparr>p_result := Value_string_view False [] False\<rparr>))
           else (True, set_back (StateBinString is_number sz data) p))
      | StateBinArray sz data \<Rightarrow>
          if sz = 0 then
            (let sz = get_unsigned_long v in
             if sz = 0 then (False, set_back (StateBinArray sz data) (p\<lparr>p_result := Empty_array\<rparr>))
             else (True, push_back DetectType (set_back (StateBinArray sz data) p)))
          else
            (let data = data @ [v] in
             if length data < unat sz then
               (True, push_back DetectType (set_back (StateBinArray sz data) p))
             else (False, set_back (StateBinArray sz []) (p\<lparr>p_result := Value_Values data\<rparr>)))
      | StateBinObject reading_key key data sz \<Rightarrow>
          if sz = 0 then
            (let sz = get_unsigned_long v in
             if sz = 0 then
               (False, set_back (StateBinObject reading_key key data sz) (p\<lparr>p_result := Empty_object\<rparr>))
             else (True, push_back DetectType (set_back (StateBinObject True key data sz) p)))
          else if reading_key then
            (if type v \<noteq> Type_string then (False, p\<lparr>p_is_error := True\<rparr>)
             else (True, push_back DetectType (set_back (StateBinObject False v data sz) p)))
          else
            (let data = data @ [KeyValue (get_string key) v] in
             if length data < unat sz then
               (True, push_back DetectType (set_back (StateBinObject True key data sz) p))
             else
               (False, set_back (StateBinObject reading_key key [] sz)
                         (p\<lparr>p_result := Value_KeyValues data\<rparr>))))"

text \<open>
  The statement \<^verbatim>\<open>while (!need_more)\<close> of \<^verbatim>\<open>do_parse_cycle\<close>, entered with
  \<^verbatim>\<open>need_more == false\<close>.
\<close>

lemma finish_state_False_length:
  assumes "finish_state st p = (False, p')" and "p_state p \<noteq> []"
  shows "length (p_state p') = length (p_state p)"
  using assms
  by (cases st)
     (auto simp: finish_state_def Let_def set_back_def push_back_def split: if_splits)

function finish_loop :: "Parser \<Rightarrow> bool \<times> Parser" where
  "finish_loop p =
     (if p_is_error p then (False, p)
      else
        let p = p\<lparr>p_state := tl (p_state p)\<rparr> in
        case p_state p of
          [] \<Rightarrow> (False, p)
        | st # below \<Rightarrow>
            (case finish_state st p of
               (need_more, p') \<Rightarrow> if need_more then (True, p') else finish_loop p'))"
  by pat_completeness auto
termination
proof -
  have dec: "length (p_state y) < length (p_state p)"
    if "tl (p_state p) = st # below" "(False, y) = finish_state st (p\<lparr>p_state := st # below\<rparr>)"
    for p st below y
  proof -
    have "length (p_state y) = length (st # below)"
      using finish_state_False_length [of st "p\<lparr>p_state := st # below\<rparr>" y] that(2) by simp
    also have "\<dots> < length (p_state p)"
      using that(1) by (cases "p_state p") auto
    finally show ?thesis .
  qed
  show ?thesis
    by (relation "measure (\<lambda>p. length (p_state p))") (auto intro: dec)
qed

declare finish_loop.simps [simp del]

text \<open>\<^verbatim>\<open>Parser::do_parse_cycle\<close>.\<close>

definition do_parse_cycle :: "Format \<Rightarrow> Parser \<Rightarrow> (bool \<times> Parser) option" where
  "do_parse_cycle format p =
     (case p_state p of
        [] \<Rightarrow> Some (False, p)
      | st # below \<Rightarrow>
          (case parse_state format st p of
             None \<Rightarrow> None
           | Some (need_more, p') \<Rightarrow> Some (if need_more then (True, p') else finish_loop p')))"

text \<open>
  The \<^verbatim>\<open>while\<close> statement of \<^verbatim>\<open>Parser::write\<close> and \<^verbatim>\<open>write\<close> itself.  \<open>None\<close> means that the
  call does not return.
\<close>

partial_function (option) write_loop :: "Format \<Rightarrow> Parser \<Rightarrow> (bool \<times> Parser) option" where
  "write_loop format p =
     (if p_pos p = [] then Some (p_state p \<noteq> [], p)
      else
        (case do_parse_cycle format p of
           None \<Rightarrow> None
         | Some (continue, p') \<Rightarrow> if continue then write_loop format p' else Some (False, p')))"

declare write_loop.simps [code]

declare parse_state_StateNumber.simps [code]

definition Parser_write :: "Format \<Rightarrow> Parser \<Rightarrow> string \<Rightarrow> (bool \<times> Parser) option" where
  "Parser_write format p chunk = write_loop format (p\<lparr>p_pos := chunk\<rparr>)"

text \<open>\<^verbatim>\<open>is_error()\<close>, \<^verbatim>\<open>get_result()\<close> and \<^verbatim>\<open>get_unprocessed_data()\<close>.\<close>

definition is_error :: "Parser \<Rightarrow> bool" where
  "is_error p = p_is_error p"

definition get_result :: "Parser \<Rightarrow> Value" where
  "get_result p = (if p_is_error p then Undefined else p_result p)"

definition get_unprocessed_data :: "Parser \<Rightarrow> string" where
  "get_unprocessed_data p = p_pos p"

text \<open>The functions \<^verbatim>\<open>parse\<close> and \<^verbatim>\<open>unbinarize\<close>: the exception \<^verbatim>\<open>ParseError\<close> is the left summand, and
  \<open>None\<close> means that the call does not return.\<close>

datatype ParseError = ParseError nat

definition parse_with :: "Format \<Rightarrow> string \<Rightarrow> (ParseError + Value) option" where
  "parse_with format str =
     (case Parser_write format Parser_init str of
        None \<Rightarrow> None
      | Some (need_more, p) \<Rightarrow>
          Some (if \<not> need_more then
                  (if is_error p then Inl (ParseError (length str - length (get_unprocessed_data p)))
                   else Inr (get_result p))
                else Inl (ParseError (length str))))"

definition parse :: "string \<Rightarrow> (ParseError + Value) option" where
  "parse str = parse_with Format_text str"

definition unbinarize :: "string \<Rightarrow> (ParseError + Value) option" where
  "unbinarize bin = parse_with Format_binary bin"

section \<open>The serializer (serializer.h)\<close>

text \<open>The frames of the serializer, \<^verbatim>\<open>std::variant<Value, StateObject, StateArray>\<close>: a value to render, or
  the rest of an object or of an array (the range from \<^verbatim>\<open>pos\<close> to \<^verbatim>\<open>end\<close>).  The record holds
  \<^verbatim>\<open>_out_buff\<close> and \<^verbatim>\<open>_stack\<close> (the head of the list is \<^verbatim>\<open>_stack.back()\<close>).\<close>

datatype SerState =
    Ser_Value Value
  | Ser_StateObject "KeyValue list"
  | Ser_StateArray "Value list"

record Serializer =
  s_out_buff :: string
  s_stack :: "SerState list"

definition Serializer_init :: "Value \<Rightarrow> Serializer" where
  "Serializer_init v = \<lparr>s_out_buff = [], s_stack = [Ser_Value v]\<rparr>"

definition put :: "string \<Rightarrow> Serializer \<Rightarrow> Serializer" where
  "put bytes s = s\<lparr>s_out_buff := s_out_buff s @ bytes\<rparr>"

text \<open>\<^verbatim>\<open>render_unsigned_number\<close>: the decimal digits, most significant first.\<close>

function render_unsigned_number2 :: "nat \<Rightarrow> string" where
  "render_unsigned_number2 val =
     (if val \<noteq> 0 then render_unsigned_number2 (val div 10) @ [char_of (val mod 10 + of_char CHR ''0'')]
      else [])"
  by pat_completeness auto
termination
  by (relation "measure id") auto

declare render_unsigned_number2.simps [simp del]

definition render_unsigned_number :: "nat \<Rightarrow> string" where
  "render_unsigned_number val = (if val = 0 then ''0'' else render_unsigned_number2 val)"

text \<open>\<^verbatim>\<open>render_binary_type_size\<close>: the header byte and the big endian bytes of \<open>sz\<close>.\<close>

fun count_bytes_loop :: "nat \<Rightarrow> 64 word \<Rightarrow> nat \<Rightarrow> nat" where
  "count_bytes_loop 0 tmp count_bytes = count_bytes"
| "count_bytes_loop (Suc i) tmp count_bytes =
     count_bytes_loop i (drop_bit 8 tmp) (count_bytes + (if 0 < tmp then 1 else 0))"

fun size_bytes :: "nat \<Rightarrow> 64 word \<Rightarrow> string" where
  "size_bytes 0 sz = []"
| "size_bytes (Suc count_bytes) sz =
     char_of (unat (drop_bit (count_bytes * 8) sz AND 0xFF)) # size_bytes count_bytes sz"

definition render_binary_type_size :: "8 word \<Rightarrow> 64 word \<Rightarrow> string" where
  "render_binary_type_size type' sz =
     (let count_bytes = max 1 (count_bytes_loop 8 sz 0)
      in char_of (unat (type' OR of_nat (count_bytes - 1))) # size_bytes count_bytes sz)"

text \<open>\<^verbatim>\<open>Serializer::encode\<close>; \<^verbatim>\<open>snprintf\<close> with \<^verbatim>\<open>\\u%04X\<close> writes two zeros and two upper case hex digits for a byte below \<open>0x20\<close>.\<close>

definition hex_digit_upper :: "nat \<Rightarrow> char" where
  "hex_digit_upper n = (if n < 10 then char_of (n + of_char CHR ''0'') else char_of (n - 10 + of_char CHR ''A''))"

definition encode_char :: "char \<Rightarrow> string" where
  "encode_char c =
     (if c = CHR 0x22 then [CHR 0x5C, CHR 0x22]
      else if c = CHR 0x5C then [CHR 0x5C, CHR 0x5C]
      else if c = CHR 0x08 then [CHR ''b'', CHR 0x5C]
      else if c = CHR 0x0C then [CHR 0x5C, CHR ''f'']
      else if c = CHR 0x0A then [CHR 0x5C, CHR ''n'']
      else if c = CHR 0x0D then [CHR 0x5C, CHR ''f'']
      else if c = CHR 0x09 then [CHR 0x5C, CHR ''t'']
      else if (of_char c :: nat) < 0x20 then
        [CHR 0x5C, CHR ''u'', CHR ''0'', CHR ''0'',
         hex_digit_upper (of_char c div 16), hex_digit_upper (of_char c mod 16)]
      else [c])"

definition encode :: "string \<Rightarrow> string" where
  "encode str = concat (map encode_char str)"

text \<open>\<^verbatim>\<open>render_item(double, Type)\<close> for the text format.  The tests for NaN, for the infinities, for the sign
  and for a value below the smallest normal double are tests of the bits.  The digits of
  a normal double come from the C library (\<^verbatim>\<open>log10\<close>, \<^verbatim>\<open>pow\<close>, \<^verbatim>\<open>modf\<close>); that part is the
  parameter \<open>print_normal\<close>, applied to the absolute value.  For the binary format the
  eight bytes are copied, in the byte order of the host.\<close>

definition double_isfinite :: "64 word \<Rightarrow> bool" where
  "double_isfinite d = (d AND 0x7FF0000000000000 \<noteq> 0x7FF0000000000000)"

definition double_sign :: "64 word \<Rightarrow> bool" where
  "double_sign d = (d AND 0x8000000000000000 \<noteq> 0)"

definition double_from :: "64 word \<Rightarrow> string" where
  "double_from d = map (\<lambda>i. char_of (unat (drop_bit (8 * i) d AND 0xFF))) [0..<8]"

definition render_double_text :: "(64 word \<Rightarrow> string) \<Rightarrow> 64 word \<Rightarrow> string" where
  "render_double_text print_normal v =
     (if double_isnan v then null_value
      else if \<not> double_isfinite v then
        [CHR 0x22] @ (if double_sign v then neg_infinity else infinity) @ [CHR 0x22]
      else
        (if double_sign v \<and> v AND 0x7FFFFFFFFFFFFFFF \<noteq> 0 then ''-'' else [])
        @ (if v AND 0x7FF0000000000000 = 0 then ''0''
           else print_normal (v AND 0x7FFFFFFFFFFFFFFF)))"

text \<open>\<^verbatim>\<open>render_item(std::string_view, Type)\<close> and \<^verbatim>\<open>render_key\<close>.\<close>

definition render_string_view :: "Format \<Rightarrow> string \<Rightarrow> Type \<Rightarrow> string" where
  "render_string_view format v t =
     (if format = Format_text then
        (if t = Type_number then v else [CHR 0x22] @ encode v @ [CHR 0x22])
      else
        render_binary_type_size
          (if t = Type_number then BinaryType_string_number else BinaryType_string)
          (of_nat (length v))
        @ v)"

definition render_key :: "Format \<Rightarrow> Value \<Rightarrow> string" where
  "render_key format key = render_string_view format (get_string key) Type_string"

text \<open>What the overloads of \<^verbatim>\<open>render_item\<close> write for the alternatives that are not containers.\<close>

definition render_scalar :: "(64 word \<Rightarrow> string) \<Rightarrow> Format \<Rightarrow> Value \<Rightarrow> string" where
  "render_scalar print_normal format v =
     (case visit v of
        V_string_view a \<Rightarrow> render_string_view format a (type v)
      | V_Undefined \<Rightarrow>
          (if format = Format_text then null_value else [char_of (unat BinaryType_undefined)])
      | V_nullptr \<Rightarrow>
          (if format = Format_text then null_value else [char_of (unat BinaryType_null)])
      | V_bool a \<Rightarrow>
          (if format = Format_text then (if a then true_value else false_value)
           else [char_of (unat (if a then BinaryType_bool_true else BinaryType_bool_false))])
      | V_int32 a \<Rightarrow>
          (if format = Format_text then
             (if a <s 0 then ''-'' @ render_unsigned_number (unat (- a))
              else render_unsigned_number (unat a))
           else if a <s 0 then render_binary_type_size BinaryType_n_number (scast (- a))
           else render_binary_type_size BinaryType_p_number (scast a))
      | V_uint32 a \<Rightarrow>
          (if format = Format_text then render_unsigned_number (unat a)
           else render_binary_type_size BinaryType_p_number (ucast a))
      | V_int64 a \<Rightarrow>
          (if format = Format_text then
             (if a <s 0 then ''-'' @ render_unsigned_number (unat (- a))
              else render_unsigned_number (unat a))
           else if a <s 0 then render_binary_type_size BinaryType_n_number (- a)
           else render_binary_type_size BinaryType_p_number a)
      | V_uint64 a \<Rightarrow>
          (if format = Format_text then render_unsigned_number (unat a)
           else render_binary_type_size BinaryType_p_number a)
      | V_double a \<Rightarrow>
          (if format = Format_text then render_double_text print_normal a
           else char_of (unat BinaryType_double_number) # double_from a)
      | _ \<Rightarrow> [])"

text \<open>
  The element at which the \<^verbatim>\<open>while\<close> statement of \<^verbatim>\<open>render_item\<close> for a container stops: the first one
  in binary format, the first defined one in text format.
\<close>

definition skipped :: "Format \<Rightarrow> Value \<Rightarrow> bool" where
  "skipped format v = (\<not> (format = Format_binary \<or> defined v))"

lemma visit_array_size_dropWhile:
  "visit v = V_Container_Value a \<Longrightarrow> dropWhile P a = x # pos \<Longrightarrow> size x < size v"
  by (metis visit_array_size list.set_intros(1) set_dropWhileD)

lemma visit_object_size_dropWhile:
  "visit v = V_Container_KeyValue a \<Longrightarrow> dropWhile P a = kv # pos \<Longrightarrow> size (snd kv) < size v"
  by (metis visit_object_size list.set_intros(1) set_dropWhileD prod.collapse)

text \<open>\<^verbatim>\<open>render_value\<close> with the overloads of \<^verbatim>\<open>render_item\<close> for the two containers.\<close>

function render_value :: "(64 word \<Rightarrow> string) \<Rightarrow> Format \<Rightarrow> Value \<Rightarrow> Serializer \<Rightarrow> Serializer" where
  "render_value print_normal format v s =
     (case visit v of
        V_Container_Value a \<Rightarrow>
          (let s = put (if format = Format_text then ''[''
                        else render_binary_type_size BinaryType_array (of_nat (length a))) s
           in case dropWhile (skipped format) a of
                [] \<Rightarrow> (if format = Format_text then put '']'' s else s)
              | x # pos \<Rightarrow>
                  render_value print_normal format x (s\<lparr>s_stack := Ser_StateArray pos # s_stack s\<rparr>))
      | V_Container_KeyValue a \<Rightarrow>
          (let s = put (if format = Format_text then ''{''
                        else render_binary_type_size BinaryType_object (of_nat (length a))) s
           in case dropWhile (\<lambda>kv. skipped format (snd kv)) a of
                [] \<Rightarrow> (if format = Format_text then put ''}'' s else s)
              | kv # pos \<Rightarrow>
                  (let s = put (render_key format (fst kv)) s;
                       s = (if format = Format_text then put '':'' s else s)
                   in render_value print_normal format (snd kv)
                        (s\<lparr>s_stack := Ser_StateObject pos # s_stack s\<rparr>)))
      | _ \<Rightarrow> put (render_scalar print_normal format v) s)"
  by pat_completeness auto
termination
  by (relation "measure (\<lambda>(print_normal, format, v, s). size v)")
     (auto dest: visit_array_size_dropWhile visit_object_size_dropWhile)

declare render_value.simps [simp del]

text \<open>\<^verbatim>\<open>Serializer::next\<close>.\<close>

fun frame_length :: "SerState \<Rightarrow> nat" where
  "frame_length (Ser_Value v) = 1"
| "frame_length (Ser_StateObject rest) = Suc (length rest)"
| "frame_length (Ser_StateArray rest) = Suc (length rest)"

function ser_next :: "(64 word \<Rightarrow> string) \<Rightarrow> Format \<Rightarrow> Serializer \<Rightarrow> Serializer" where
  "ser_next print_normal format s =
     (case s_stack s of
        [] \<Rightarrow> s
      | Ser_Value v # below \<Rightarrow> render_value print_normal format v (s\<lparr>s_stack := below\<rparr>)
      | Ser_StateObject [] # below \<Rightarrow>
          ser_next print_normal format
            ((if format = Format_text then put ''}'' s else s)\<lparr>s_stack := below\<rparr>)
      | Ser_StateObject (kv # pos) # below \<Rightarrow>
          (let s = s\<lparr>s_stack := Ser_StateObject pos # below\<rparr> in
           if format = Format_text \<and> \<not> defined (snd kv) then ser_next print_normal format s
           else
             let s = (if format = Format_text then put '','' s else s);
                 s = put (render_key format (fst kv)) s;
                 s = (if format = Format_text then put '':'' s else s)
             in render_value print_normal format (snd kv) s)
      | Ser_StateArray [] # below \<Rightarrow>
          ser_next print_normal format
            ((if format = Format_text then put '']'' s else s)\<lparr>s_stack := below\<rparr>)
      | Ser_StateArray (v # pos) # below \<Rightarrow>
          (let s = s\<lparr>s_stack := Ser_StateArray pos # below\<rparr> in
           if format = Format_text \<and> \<not> defined v then ser_next print_normal format s
           else
             let s = (if format = Format_text then put '','' s else s)
             in render_value print_normal format v s))"
  by pat_completeness auto
termination
  by (relation "measure (\<lambda>(print_normal, format, s). sum_list (map frame_length (s_stack s)))")
     (auto simp: put_def)

declare ser_next.simps [simp del]

text \<open>\<^verbatim>\<open>Serializer::read\<close>.\<close>

definition read :: "(64 word \<Rightarrow> string) \<Rightarrow> Format \<Rightarrow> Serializer \<Rightarrow> Serializer" where
  "read print_normal format s = ser_next print_normal format (s\<lparr>s_out_buff := []\<rparr>)"

fun frame_weight :: "SerState \<Rightarrow> nat" where
  "frame_weight (Ser_Value v) = Suc (size v)"
| "frame_weight (Ser_StateObject rest) = Suc (size_list (size_prod size size) rest)"
| "frame_weight (Ser_StateArray rest) = Suc (size_list size rest)"

definition stack_weight :: "SerState list \<Rightarrow> nat" where
  "stack_weight st = sum_list (map frame_weight st)"

lemma size_list_dropWhile: "size_list f (dropWhile P xs) \<le> size_list f xs"
  by (induction xs) auto

lemma put_stack [simp]: "s_stack (put bytes s) = s_stack s"
  by (simp add: put_def)

lemma render_value_weight:
  "stack_weight (s_stack (render_value print_normal format v s)) < stack_weight (s_stack s) + Suc (size v)"
proof (induction print_normal format v s rule: render_value.induct)
  case (1 print_normal format v s)
  show ?case
  proof (cases "visit v")
    case (V_Container_Value a)
    let ?s = "put (if format = Format_text then ''[''
                    else render_binary_type_size BinaryType_array (of_nat (length a))) s"
    show ?thesis
    proof (cases "dropWhile (skipped format) a")
      case Nil
      with V_Container_Value show ?thesis
        by (subst render_value.simps) (cases format; simp add: Let_def del: dropWhile_eq_Nil_conv)
    next
      case (Cons x pos)
      have "size_list size (x # pos) \<le> size_list size a"
        using size_list_dropWhile [of size "skipped format" a] Cons by simp
      moreover have "size_list size a \<le> size v"
        using V_Container_Value by (cases v) auto
      moreover note "1.IH"(1) [OF V_Container_Value refl Cons]
      ultimately show ?thesis
        using V_Container_Value Cons
        by (subst render_value.simps) (cases format; simp add: Let_def stack_weight_def)
    qed
  next
    case (V_Container_KeyValue a)
    let ?s = "put (if format = Format_text then ''{''
                    else render_binary_type_size BinaryType_object (of_nat (length a))) s"
    show ?thesis
    proof (cases "dropWhile (\<lambda>kv. skipped format (snd kv)) a")
      case Nil
      with V_Container_KeyValue show ?thesis
        by (subst render_value.simps) (cases format; simp add: Let_def del: dropWhile_eq_Nil_conv)
    next
      case (Cons kv pos)
      let ?s1 = "put (render_key format (fst kv)) ?s"
      let ?s2 = "if format = Format_text then put '':'' ?s1 else ?s1"
      have "size_list (size_prod size size) (kv # pos) \<le> size_list (size_prod size size) a"
        using size_list_dropWhile [of "size_prod size size" "\<lambda>kv. skipped format (snd kv)" a] Cons
        by simp
      moreover have "size_list (size_prod size size) a \<le> size v"
        using V_Container_KeyValue by (cases v) auto
      moreover have "size (snd kv) < size_prod size size kv"
        by (cases kv) simp
      moreover note "1.IH"(2) [OF V_Container_KeyValue refl Cons refl refl]
      ultimately show ?thesis
        using V_Container_KeyValue Cons
        by (subst render_value.simps) (cases format; simp add: Let_def stack_weight_def)
    qed
  qed (subst render_value.simps; simp)+
qed

lemma ser_next_weight:
  "s_stack s \<noteq> [] \<Longrightarrow>
   stack_weight (s_stack (ser_next print_normal format s)) < stack_weight (s_stack s)"
proof (induction print_normal format s rule: ser_next.induct)
  case (1 print_normal format s)
  from "1.prems" obtain top below where st: "s_stack s = top # below"
    by (cases "s_stack s") auto
  show ?case
  proof (cases top)
    case (Ser_Value v)
    with st render_value_weight [of print_normal format v "s\<lparr>s_stack := below\<rparr>"]
    show ?thesis
      by (subst ser_next.simps) (simp add: stack_weight_def)
  next
    case (Ser_StateObject rest)
    show ?thesis
    proof (cases rest)
      case Nil
      let ?s = "(if format = Format_text then put ''}'' s else s)\<lparr>s_stack := below\<rparr>"
      have "stack_weight (s_stack (ser_next print_normal format ?s)) \<le> stack_weight below"
      proof (cases below)
        case Nil
        then show ?thesis by (subst ser_next.simps) simp
      next
        case (Cons b bs)
        with "1.IH"(1) [OF st Ser_StateObject Nil] show ?thesis by simp
      qed
      with st Ser_StateObject Nil show ?thesis
        by (subst ser_next.simps) (simp add: stack_weight_def)
    next
      case (Cons kv pos)
      let ?s = "s\<lparr>s_stack := Ser_StateObject pos # below\<rparr>"
      show ?thesis
      proof (cases "format = Format_text \<and> \<not> defined (snd kv)")
        case True
        with "1.IH"(2) [OF st Ser_StateObject Cons refl True] st Ser_StateObject Cons
        show ?thesis
          by (subst ser_next.simps) (simp add: stack_weight_def)
      next
        case False
        let ?s1 = "if format = Format_text then put '','' ?s else ?s"
        let ?s2 = "put (render_key format (fst kv)) ?s1"
        let ?s3 = "if format = Format_text then put '':'' ?s2 else ?s2"
        have "size (snd kv) < size_prod size size kv" by (cases kv) simp
        with render_value_weight [of print_normal format "snd kv" ?s3] st Ser_StateObject Cons False
        show ?thesis
          by (subst ser_next.simps) (auto simp: stack_weight_def Let_def)
      qed
    qed
  next
    case (Ser_StateArray rest)
    show ?thesis
    proof (cases rest)
      case Nil
      let ?s = "(if format = Format_text then put '']'' s else s)\<lparr>s_stack := below\<rparr>"
      have "stack_weight (s_stack (ser_next print_normal format ?s)) \<le> stack_weight below"
      proof (cases below)
        case Nil
        then show ?thesis by (subst ser_next.simps) simp
      next
        case (Cons b bs)
        with "1.IH"(3) [OF st Ser_StateArray Nil] show ?thesis by simp
      qed
      with st Ser_StateArray Nil show ?thesis
        by (subst ser_next.simps) (simp add: stack_weight_def)
    next
      case (Cons v pos)
      let ?s = "s\<lparr>s_stack := Ser_StateArray pos # below\<rparr>"
      show ?thesis
      proof (cases "format = Format_text \<and> \<not> defined v")
        case True
        with "1.IH"(4) [OF st Ser_StateArray Cons refl True] st Ser_StateArray Cons
        show ?thesis
          by (subst ser_next.simps) (simp add: stack_weight_def)
      next
        case False
        let ?s1 = "if format = Format_text then put '','' ?s else ?s"
        from render_value_weight [of print_normal format v ?s1] st Ser_StateArray Cons False
        show ?thesis
          by (subst ser_next.simps) (auto simp: stack_weight_def Let_def)
      qed
    qed
  qed
qed

lemma ser_next_empty: "s_stack s = [] \<Longrightarrow> ser_next print_normal format s = s"
  by (subst ser_next.simps) simp

text \<open>\<^verbatim>\<open>stringify\<close> and \<^verbatim>\<open>binarize\<close>: the chunks of \<^verbatim>\<open>read()\<close> are appended until an empty chunk
  comes.\<close>

function stringify_loop :: "(64 word \<Rightarrow> string) \<Rightarrow> Format \<Rightarrow> Serializer \<Rightarrow> string" where
  "stringify_loop print_normal format ser =
     (let ser = read print_normal format ser; part = s_out_buff ser
      in if part = [] then [] else part @ stringify_loop print_normal format ser)"
  by pat_completeness auto
termination
proof (relation "measure (\<lambda>(print_normal, format, ser). stack_weight (s_stack ser))", goal_cases)
  case 1
  show ?case by simp
next
  case (2 print_normal format ser x xa)
  then have ne: "s_out_buff (read print_normal format ser) \<noteq> []" by simp
  have "s_stack ser \<noteq> []"
  proof
    assume "s_stack ser = []"
    then have "read print_normal format ser = ser\<lparr>s_out_buff := []\<rparr>"
      by (simp add: read_def ser_next_empty)
    with ne show False by simp
  qed
  then have "stack_weight (s_stack (read print_normal format ser)) < stack_weight (s_stack ser)"
    using ser_next_weight [of "ser\<lparr>s_out_buff := []\<rparr>" print_normal format]
    by (simp add: read_def)
  with 2 show ?case by simp
qed

declare stringify_loop.simps [simp del]

definition stringify_with :: "(64 word \<Rightarrow> string) \<Rightarrow> Format \<Rightarrow> Value \<Rightarrow> string" where
  "stringify_with print_normal format v = stringify_loop print_normal format (Serializer_init v)"

definition stringify :: "(64 word \<Rightarrow> string) \<Rightarrow> Value \<Rightarrow> string" where
  "stringify print_normal v = stringify_with print_normal Format_text v"

definition binarize :: "Value \<Rightarrow> string" where
  "binarize v = stringify_with (\<lambda>d. []) Format_binary v"

subsection \<open>The encoding as a recursive function\<close>

text \<open>
  The rendering of a value written as one recursive function: what the serializer is
  shown to produce, chunk after chunk.
\<close>

definition separator :: "Format \<Rightarrow> string" where
  "separator format = (if format = Format_text then '','' else [])"

definition colon :: "Format \<Rightarrow> string" where
  "colon format = (if format = Format_text then '':'' else [])"

definition array_open :: "Format \<Rightarrow> nat \<Rightarrow> string" where
  "array_open format n =
     (if format = Format_text then ''[''
      else render_binary_type_size BinaryType_array (of_nat n))"

definition array_close :: "Format \<Rightarrow> string" where
  "array_close format = (if format = Format_text then '']'' else [])"

definition object_open :: "Format \<Rightarrow> nat \<Rightarrow> string" where
  "object_open format n =
     (if format = Format_text then ''{''
      else render_binary_type_size BinaryType_object (of_nat n))"

definition object_close :: "Format \<Rightarrow> string" where
  "object_close format = (if format = Format_text then ''}'' else [])"

text \<open>The elements of a list, each after a separator, and the same with the first separator left out.\<close>

definition separated :: "Format \<Rightarrow> string list \<Rightarrow> string" where
  "separated format items = concat (map (\<lambda>item. separator format @ item) items)"

definition joined :: "Format \<Rightarrow> string list \<Rightarrow> string" where
  "joined format items = (case items of [] \<Rightarrow> [] | item # rest \<Rightarrow> item @ separated format rest)"

lemma visit_array_size_filter:
  "visit v = V_Container_Value a \<Longrightarrow> x \<in> set (filter P a) \<Longrightarrow> size x < size v"
  by (auto dest: visit_array_size)

lemma visit_object_size_filter:
  "visit v = V_Container_KeyValue a \<Longrightarrow> kv \<in> set (filter P a) \<Longrightarrow> size (snd kv) < size v"
  by (cases kv) (auto dest: visit_object_size)

function encoding :: "(64 word \<Rightarrow> string) \<Rightarrow> Format \<Rightarrow> Value \<Rightarrow> string" where
  "encoding print_normal format v =
     (case visit v of
        V_Container_Value a \<Rightarrow>
          array_open format (length a)
          @ joined format (map (encoding print_normal format)
                               (filter (\<lambda>x. \<not> skipped format x) a))
          @ array_close format
      | V_Container_KeyValue a \<Rightarrow>
          object_open format (length a)
          @ joined format
              (map (\<lambda>kv. render_key format (fst kv) @ colon format
                           @ encoding print_normal format (snd kv))
                   (filter (\<lambda>kv. \<not> skipped format (snd kv)) a))
          @ object_close format
      | _ \<Rightarrow> render_scalar print_normal format v)"
  by pat_completeness auto
termination
  by (relation "measure (\<lambda>(print_normal, format, v). size v)")
     (auto dest: visit_array_size_filter visit_object_size_filter)

declare encoding.simps [simp del]

text \<open>The encoding of what is left on the stack of the serializer.\<close>

definition member_encoding :: "(64 word \<Rightarrow> string) \<Rightarrow> Format \<Rightarrow> KeyValue \<Rightarrow> string" where
  "member_encoding print_normal format kv =
     render_key format (fst kv) @ colon format @ encoding print_normal format (snd kv)"

fun frame_encoding :: "(64 word \<Rightarrow> string) \<Rightarrow> Format \<Rightarrow> SerState \<Rightarrow> string" where
  "frame_encoding print_normal format (Ser_Value v) = encoding print_normal format v"
| "frame_encoding print_normal format (Ser_StateArray rest) =
     separated format (map (encoding print_normal format) (filter (\<lambda>x. \<not> skipped format x) rest))
     @ array_close format"
| "frame_encoding print_normal format (Ser_StateObject rest) =
     separated format (map (member_encoding print_normal format)
                           (filter (\<lambda>kv. \<not> skipped format (snd kv)) rest))
     @ object_close format"

definition stack_encoding :: "(64 word \<Rightarrow> string) \<Rightarrow> Format \<Rightarrow> SerState list \<Rightarrow> string" where
  "stack_encoding print_normal format st = concat (map (frame_encoding print_normal format) st)"

fun is_range :: "SerState \<Rightarrow> bool" where
  "is_range (Ser_Value v) = False"
| "is_range (Ser_StateArray rest) = True"
| "is_range (Ser_StateObject rest) = True"


section \<open>What the parser makes of the bytes of a value\<close>

text \<open>
  \<^verbatim>\<open>do_parse_cycle\<close> after a \<^verbatim>\<open>parse_state\<close> that answered \<^verbatim>\<open>false\<close>, followed by the rest of
  \<^verbatim>\<open>write\<close>: the frames that are finished are popped, and the parser goes on with the input
  if a frame asks for more.
\<close>

definition resume :: "Format \<Rightarrow> Parser \<Rightarrow> (bool \<times> Parser) option" where
  "resume format p =
     (case finish_loop p of
        (need_more, p') \<Rightarrow> if need_more then write_loop format p' else Some (False, p'))"

text \<open>The accumulator of \<^verbatim>\<open>parse_state(StateBinNumber &)\<close> after the bytes \<open>bs\<close>.\<close>

definition read_bytes :: "64 word \<Rightarrow> string \<Rightarrow> 64 word" where
  "read_bytes accum bs = foldl (\<lambda>accum c. push_bit 8 accum OR of_char c) accum bs"

text \<open>The frame that \<^verbatim>\<open>parse_state(DetectType &)\<close> pushes below the \<^verbatim>\<open>StateBinNumber\<close> frame for a tag.\<close>

definition header_frames :: "8 word \<Rightarrow> State list" where
  "header_frames t =
     (if t = BinaryType_string then [StateBinString False 0 []]
      else if t = BinaryType_string_number then [StateBinString True 0 []]
      else if t = BinaryType_array then [StateBinArray 0 []]
      else if t = BinaryType_object then [StateBinObject False Undefined [] 0]
      else [])"

lemma visit_object_size_snd:
  "visit v = V_Container_KeyValue a \<Longrightarrow> kv \<in> set a \<Longrightarrow> size (snd kv) < size v"
  by (cases kv) (auto dest: visit_object_size)

text \<open>
  The value that the binary parser builds from the bytes that the serializer writes for
  \<open>v\<close>: a string becomes a string made by \<^verbatim>\<open>Value(std::string_view, bool)\<close> (the empty
  one is never a number), an integer becomes a \<^verbatim>\<open>uint64\<close> or, below zero, an \<^verbatim>\<open>int64\<close>,
  an array is built by \<^verbatim>\<open>Value(const std::vector<Value> &)\<close> and an object by
  \<^verbatim>\<open>Value(const std::vector<KeyValue> &)\<close>, which sorts.
\<close>

function reparsed :: "Value \<Rightarrow> Value" where
  "reparsed v =
     (case visit v of
        V_string_view a \<Rightarrow>
          (if a = [] then Value_string_view False [] False
           else Value_string_view False a (type v = Type_number))
      | V_Undefined \<Rightarrow> Undefined
      | V_nullptr \<Rightarrow> Null
      | V_bool a \<Rightarrow> (if a then Bool_true else Bool_false)
      | V_int32 a \<Rightarrow> (if a <s 0 then Int64 (- scast (- a)) else Uint64 (scast a))
      | V_uint32 a \<Rightarrow> Uint64 (ucast a)
      | V_int64 a \<Rightarrow> (if a <s 0 then Int64 (- (- a)) else Uint64 a)
      | V_uint64 a \<Rightarrow> Uint64 a
      | V_double a \<Rightarrow> Dnum a
      | V_Container_Value a \<Rightarrow> Value_Values (map reparsed a)
      | V_Container_KeyValue a \<Rightarrow>
          Value_KeyValues (map (\<lambda>kv. KeyValue (get_string (fst kv)) (reparsed (snd kv))) a))"
  by pat_completeness auto
termination
  by (relation "measure size") (auto dest: visit_array_size visit_object_size_snd)

declare reparsed.simps [simp del]

text \<open>
  Every length in the value is below \<open>2\<^sup>6\<^sup>4\<close>.  A length of the program is a
  \<^verbatim>\<open>std::size_t\<close>, so this holds for every value that the program can hold; the lists of
  the model have no bound.
\<close>

function fits :: "Value \<Rightarrow> bool" where
  "fits v =
     (case visit v of
        V_string_view a \<Rightarrow> length a < 2 ^ 64
      | V_Container_Value a \<Rightarrow> length a < 2 ^ 64 \<and> list_all fits a
      | V_Container_KeyValue a \<Rightarrow>
          length a < 2 ^ 64
          \<and> list_all (\<lambda>kv. length (get_string (fst kv)) < 2 ^ 64 \<and> fits (snd kv)) a
      | _ \<Rightarrow> True)"
  by pat_completeness auto
termination
  by (relation "measure size") (auto dest: visit_array_size visit_object_size_snd)

declare fits.simps [simp del]

text \<open>
  The values that come back from the binary format as they were: no \<^verbatim>\<open>undefined\<close> and no
  NaN at any depth, an integer held as \<^verbatim>\<open>uint64\<close> or as an \<^verbatim>\<open>int64\<close> below zero, the keys of
  every object strings in strictly ascending order.
\<close>

function binary_exact :: "Value \<Rightarrow> bool" where
  "binary_exact v =
     (case visit v of
        V_string_view a \<Rightarrow> True
      | V_Undefined \<Rightarrow> False
      | V_nullptr \<Rightarrow> True
      | V_bool a \<Rightarrow> True
      | V_int32 a \<Rightarrow> False
      | V_uint32 a \<Rightarrow> False
      | V_int64 a \<Rightarrow> a <s 0
      | V_uint64 a \<Rightarrow> True
      | V_double a \<Rightarrow> \<not> double_isnan a
      | V_Container_Value a \<Rightarrow> list_all binary_exact a
      | V_Container_KeyValue a \<Rightarrow>
          list_all (\<lambda>kv. (case visit (fst kv) of V_string_view k \<Rightarrow> True | _ \<Rightarrow> False)
                          \<and> binary_exact (snd kv)) a
          \<and> sorted_wrt key_less a)"
  by pat_completeness auto
termination
  by (relation "measure size") (auto dest: visit_array_size visit_object_size_snd)

declare binary_exact.simps [simp del]






section \<open>Strings are stored without loss\<close>

lemma short_tag_low:
  assumes "n < 15"
  shows "unat (((if is_number then 16 else 0) OR of_nat n :: 8 word) AND 0xF) = n"
proof -
  have "n \<in> {0, 1, 2, 3, 4, 5, 6, 7, 8, 9, 10, 11, 12, 13, 14}"
    using assms by (simp; arith)
  then show ?thesis
    by (cases is_number) auto
qed

lemma short_tag_high:
  assumes "n < 15"
  shows "(((if is_number then 16 else 0) OR of_nat n :: 8 word) AND 0xF0 = 16) = is_number"
proof -
  have "n \<in> {0, 1, 2, 3, 4, 5, 6, 7, 8, 9, 10, 11, 12, 13, 14}"
    using assms by (simp; arith)
  then show ?thesis
    by (cases is_number) auto
qed

lemma get_string_Value_string_view:
  assumes "constant_evaluated \<longrightarrow> length s < 2 ^ 32"
  shows "get_string (Value_string_view constant_evaluated s is_number) = s"
proof (cases "length s < 15")
  case True
  then show ?thesis
    using short_tag_low [of "length s" is_number]
    by (simp add: Value_string_view_def get_string_def)
next
  case False
  show ?thesis
  proof (cases constant_evaluated)
    case True
    with assms have "length s < 2 ^ 32" by simp
    then have "unat (of_nat (length s) :: 32 word) = length s"
      by (simp add: unat_of_nat)
    with False True show ?thesis
      by (simp add: Value_string_view_def get_string_def)
  next
    case ce: False
    with False show ?thesis
      by (simp add: Value_string_view_def get_string_def)
  qed
qed

lemma type_Value_string_view:
  "type (Value_string_view constant_evaluated s is_number)
     = (if is_number then Type_number else Type_string)"
proof (cases "length s < 15")
  case True
  then show ?thesis
    using short_tag_high [of "length s" is_number]
    by (simp add: Value_string_view_def)
next
  case False
  then show ?thesis
    by (simp add: Value_string_view_def)
qed

lemma key_string_KeyValue [simp]: "key_string (KeyValue k v) = k"
  by (simp add: key_string_def KeyValue_def get_string_Value_string_view)

lemma snd_KeyValue [simp]: "snd (KeyValue k v) = v"
  by (simp add: KeyValue_def)

text \<open>
  C10.  For every byte string \<open>s\<close>, whether it is stored inline (shorter than 15 bytes)
  or on the heap, \<^verbatim>\<open>Value(s)\<close> has the logical type string and \<^verbatim>\<open>get_string()\<close> returns
  exactly the bytes of \<open>s\<close>.  The borrowed variant, which only constant evaluation
  chooses, keeps a 32 bit length: there the length has to fit.
\<close>

theorem Value_string_roundtrip:
  assumes "constant_evaluated \<longrightarrow> length s < 2 ^ 32"
  shows "type (Value_string_view constant_evaluated s False) = Type_string
       \<and> get_string (Value_string_view constant_evaluated s False) = s"
  using assms by (simp add: get_string_Value_string_view type_Value_string_view)

text \<open>
  The theorem at a string of 31 bytes on the heap, at the same string borrowed, and at a
  string of five bytes stored inline.
\<close>

theorem Value_string_roundtrip_witness:
  "type (Value_string_view False ''a long string of 31 characters.'' False) = Type_string
   \<and> get_string (Value_string_view False ''a long string of 31 characters.'' False)
       = ''a long string of 31 characters.''
   \<and> get_string (Value_string_view True ''a long string of 31 characters.'' False)
       = ''a long string of 31 characters.''
   \<and> get_string (Value_string_view False ''short'' False) = ''short''"
  using Value_string_roundtrip [of False "''a long string of 31 characters.''"]
        Value_string_roundtrip [of True "''a long string of 31 characters.''"]
        Value_string_roundtrip [of False "''short''"]
  by simp

section \<open>Key order, sorting and binary search\<close>

lemma compare_less: "compare a b < 0 \<longleftrightarrow> a < b"
  by (induction a b rule: compare.induct) (auto simp: less_char_def)

lemma compare_eq: "compare a b = 0 \<longleftrightarrow> a = b"
  by (induction a b rule: compare.induct) (auto simp: less_char_def)

lemma compare_greater: "0 < compare a b \<longleftrightarrow> b < a"
  by (induction a b rule: compare.induct) (auto simp: less_char_def)

lemma lower_bound_step_less:
  "0 < len \<Longrightarrow> compare (key_string (item ! (first + len div 2))) key < 0 \<Longrightarrow>
   lower_bound item key first len
     = lower_bound item key (first + len div 2 + 1) (len - len div 2 - 1)"
  by (subst lower_bound.simps) (simp add: Let_def)

lemma lower_bound_step_geq:
  "0 < len \<Longrightarrow> \<not> compare (key_string (item ! (first + len div 2))) key < 0 \<Longrightarrow>
   lower_bound item key first len = lower_bound item key first (len div 2)"
  by (subst lower_bound.simps) (simp add: Let_def)

lemma lower_bound_range:
  "first \<le> lower_bound item key first len \<and> lower_bound item key first len \<le> first + len"
proof (induction item key first len rule: lower_bound.induct)
  case (1 item key first len)
  show ?case
  proof (cases "0 < len")
    case False
    then show ?thesis by (simp add: lower_bound.simps)
  next
    case True
    show ?thesis
    proof (cases "compare (key_string (item ! (first + len div 2))) key < 0")
      case c: True
      have "first + len div 2 + 1 + (len - len div 2 - 1) = first + len"
        using True by (simp; linarith)
      with "1.IH"(1) [OF True refl refl c] show ?thesis
        by (simp add: lower_bound_step_less [OF True c])
    next
      case c: False
      have "len div 2 \<le> len" by simp
      with "1.IH"(2) [OF True refl refl c] show ?thesis
        unfolding lower_bound_step_geq [OF True c] by linarith
    qed
  qed
qed

lemma lower_bound_partition:
  assumes "sorted (map key_string item)" and "first + len \<le> length item"
    and "\<forall>i < first. key_string (item ! i) < key"
    and "\<forall>i. first + len \<le> i \<and> i < length item \<longrightarrow> key \<le> key_string (item ! i)"
  shows "(\<forall>i < lower_bound item key first len. key_string (item ! i) < key)
       \<and> (\<forall>i. lower_bound item key first len \<le> i \<and> i < length item \<longrightarrow> key \<le> key_string (item ! i))"
  using assms
proof (induction item key first len rule: lower_bound.induct)
  case (1 item key first len)
  show ?case
  proof (cases "0 < len")
    case False
    with "1.prems" show ?thesis by (simp add: lower_bound.simps)
  next
    case True
    let ?m = "first + len div 2"
    have m: "?m < length item" using True "1.prems"(2) by (simp; linarith)
    have nth_mono: "\<And>i j. i \<le> j \<Longrightarrow> j < length item \<Longrightarrow> key_string (item ! i) \<le> key_string (item ! j)"
      using "1.prems"(1) sorted_iff_nth_mono [of "map key_string item"] by simp
    show ?thesis
    proof (cases "compare (key_string (item ! ?m)) key < 0")
      case c: True
      then have lt: "key_string (item ! ?m) < key" by (simp add: compare_less)
      have below: "\<forall>i < ?m + 1. key_string (item ! i) < key"
      proof (intro allI impI)
        fix i assume "i < ?m + 1"
        then have "i \<le> ?m" by simp
        then have "key_string (item ! i) \<le> key_string (item ! ?m)"
          using m by (rule nth_mono)
        with lt show "key_string (item ! i) < key" by simp
      qed
      have e: "?m + 1 + (len - len div 2 - 1) = first + len" using True by (simp; linarith)
      have len': "?m + 1 + (len - len div 2 - 1) \<le> length item"
        using "1.prems"(2) e by simp
      have above: "\<forall>i. ?m + 1 + (len - len div 2 - 1) \<le> i \<and> i < length item \<longrightarrow> key \<le> key_string (item ! i)"
        using "1.prems"(4) e by simp
      from "1.IH"(1) [OF True refl refl c "1.prems"(1) len' below above]
      show ?thesis
        by (simp add: lower_bound_step_less [OF True c])
    next
      case c: False
      then have ge: "key \<le> key_string (item ! ?m)" by (simp add: compare_less)
      have len': "first + len div 2 \<le> length item" using m by simp
      have above: "\<forall>i. first + len div 2 \<le> i \<and> i < length item \<longrightarrow> key \<le> key_string (item ! i)"
      proof (intro allI impI)
        fix i assume i: "first + len div 2 \<le> i \<and> i < length item"
        then have "key_string (item ! ?m) \<le> key_string (item ! i)"
          by (simp add: nth_mono)
        with ge show "key \<le> key_string (item ! i)" by simp
      qed
      from "1.IH"(2) [OF True refl refl c "1.prems"(1) len' "1.prems"(3) above]
      show ?thesis
        by (simp add: lower_bound_step_geq [OF True c])
    qed
  qed
qed

text \<open>On entries sorted by key, a key that is present is found at its first entry.\<close>

lemma subscript_key_found:
  assumes s: "sorted (map key_string item)" and m: "kv \<in> set item"
  shows "\<exists>kv' \<in> set item. key_string kv' = key_string kv
          \<and> subscript_key (Object item) (key_string kv) = snd kv'"
proof -
  let ?k = "key_string kv"
  let ?r = "lower_bound item ?k 0 (length item)"
  from m obtain j where j: "j < length item" "item ! j = kv"
    by (auto simp: in_set_conv_nth)
  have p: "(\<forall>i < ?r. key_string (item ! i) < ?k)
         \<and> (\<forall>i. ?r \<le> i \<and> i < length item \<longrightarrow> ?k \<le> key_string (item ! i))"
    by (rule lower_bound_partition [OF s]) auto
  have "\<not> j < ?r" using p j by auto
  then have rj: "?r \<le> j" by simp
  with j have r: "?r < length item" by simp
  have "map key_string item ! ?r \<le> map key_string item ! j"
    using s rj j by (intro sorted_nth_mono) simp_all
  then have "key_string (item ! ?r) \<le> key_string (item ! j)"
    using r j by simp
  moreover have "?k \<le> key_string (item ! ?r)" using p r by simp
  ultimately have "key_string (item ! ?r) = ?k" using j by simp
  with r show ?thesis
    by (intro bexI [of _ "item ! ?r"]) (simp_all add: subscript_key_def)
qed

lemma subscript_key_found_strict:
  assumes s: "sorted_wrt (<) (map key_string item)" and m: "kv \<in> set item"
  shows "subscript_key (Object item) (key_string kv) = snd kv"
proof -
  have "sorted (map key_string item)" using s by (simp add: strict_sorted_iff)
  from subscript_key_found [OF this m] obtain kv' where
    kv': "kv' \<in> set item" "key_string kv' = key_string kv"
         "subscript_key (Object item) (key_string kv) = snd kv'" by blast
  have "distinct (map key_string item)" using s by (simp add: strict_sorted_iff)
  then have "inj_on key_string (set item)" by (simp add: distinct_map)
  with kv' m have "kv' = kv" by (auto dest: inj_onD)
  with kv' show ?thesis by simp
qed

lemma subscript_key_miss:
  assumes "key \<notin> key_string ` set item"
  shows "subscript_key (Object item) key = Undefined"
proof -
  let ?r = "lower_bound item key 0 (length item)"
  have "?r \<le> length item" using lower_bound_range [of 0 item key "length item"] by simp
  have "key_string (item ! ?r) \<noteq> key" if "?r < length item"
  proof
    assume "key_string (item ! ?r) = key"
    moreover have "item ! ?r \<in> set item" using that by simp
    ultimately have "key \<in> key_string ` set item" by (metis imageI)
    with assms show False by simp
  qed
  with \<open>?r \<le> length item\<close> have "?r = length item \<or> key_string (item ! ?r) \<noteq> key"
    by (cases "?r = length item") auto
  then show ?thesis by (auto simp: subscript_key_def)
qed

section \<open>Access by key and by index\<close>

text \<open>
  C8.  \<^verbatim>\<open>v[k]\<close> is the shared undefined value when \<open>v\<close> is not an object and when \<open>v\<close>
  is an object that has no entry with the key \<open>k\<close>; on entries sorted by key the
  binary search finds a key that is present and returns the value of an entry with
  that key.  \<^verbatim>\<open>v[i]\<close> is undefined when \<open>i\<close> is not below the size of \<open>v\<close> and when \<open>v\<close> is
  not a container.
\<close>

theorem subscript_undefined:
  "(type v \<noteq> Type_object \<longrightarrow> subscript_key v k = Undefined)
   \<and> (type v = Type_object \<and> k \<notin> key_string ` set (entries v) \<longrightarrow> subscript_key v k = Undefined)
   \<and> (sorted (map key_string (entries v)) \<and> k \<in> key_string ` set (entries v) \<longrightarrow>
        (\<exists>kv \<in> set (entries v). key_string kv = k \<and> subscript_key v k = snd kv))
   \<and> (size_Value v \<le> unat i \<longrightarrow> subscript_index v i = Undefined)
   \<and> (type v \<noteq> Type_array \<and> type v \<noteq> Type_object \<longrightarrow> subscript_index v i = Undefined)"
proof (intro conjI impI)
  assume "type v \<noteq> Type_object"
  then show "subscript_key v k = Undefined"
    by (cases v) (simp_all add: subscript_key_def)
next
  assume a: "type v = Type_object \<and> k \<notin> key_string ` set (entries v)"
  then consider item where "v = Object item" | "v = Empty_object"
    by (cases v) (simp_all split: if_splits)
  then show "subscript_key v k = Undefined"
  proof cases
    case 1
    with a show ?thesis by (simp add: subscript_key_miss entries_def)
  next
    case 2
    then show ?thesis by (simp add: subscript_key_def lower_bound.simps)
  qed
next
  assume a: "sorted (map key_string (entries v)) \<and> k \<in> key_string ` set (entries v)"
  then obtain kv where kv: "kv \<in> set (entries v)" "key_string kv = k" by auto
  then obtain item where v: "v = Object item"
    by (cases v) (simp_all add: entries_def)
  with a kv subscript_key_found [of item kv]
  show "\<exists>kv \<in> set (entries v). key_string kv = k \<and> subscript_key v k = snd kv"
    by (simp add: entries_def)
next
  assume "size_Value v \<le> unat i"
  then show "subscript_index v i = Undefined"
    by (cases v) (simp_all add: subscript_index_def size_Value_def)
next
  assume "type v \<noteq> Type_array \<and> type v \<noteq> Type_object"
  then show "subscript_index v i = Undefined"
    by (cases v) (simp_all add: subscript_index_def)
qed

text \<open>
  The theorem at a number, at the object \<open>{"a": null}\<close> with the absent key \<open>b\<close> and
  the present key \<open>a\<close>, and at the array \<open>[null]\<close> with the index 1.
\<close>

theorem subscript_undefined_witness:
  "type (Int32 5) \<noteq> Type_object \<and> subscript_key (Int32 5) ''a'' = Undefined
   \<and> type (Object [KeyValue ''a'' Null]) = Type_object
   \<and> ''b'' \<notin> key_string ` set (entries (Object [KeyValue ''a'' Null]))
   \<and> subscript_key (Object [KeyValue ''a'' Null]) ''b'' = Undefined
   \<and> sorted (map key_string (entries (Object [KeyValue ''a'' Null])))
   \<and> ''a'' \<in> key_string ` set (entries (Object [KeyValue ''a'' Null]))
   \<and> subscript_key (Object [KeyValue ''a'' Null]) ''a'' = Null
   \<and> size_Value (Array [Null]) \<le> unat (1 :: 32 word)
   \<and> subscript_index (Array [Null]) 1 = Undefined
   \<and> subscript_index (Int32 5) 0 = Undefined"
  using subscript_undefined [of "Int32 5" "''a''" 0]
        subscript_undefined [of "Object [KeyValue ''a'' Null]" "''b''" 0]
        subscript_undefined [of "Object [KeyValue ''a'' Null]" "''a''" 0]
        subscript_undefined [of "Array [Null]" "''a''" 1]
  by (simp add: entries_def size_Value_def)

section \<open>Objects are sorted by key\<close>

lemma sort_insert_set: "set (sort_insert a bs) = insert a (set bs)"
  by (induction bs) auto



lemma sort_loop_set:
  "set (foldl (\<lambda>sorted_part a. sort_insert a sorted_part) acc ptr) = set acc \<union> set ptr"
  by (induction ptr arbitrary: acc) (auto simp: sort_insert_set)



lemma sort_object_set: "set (sort_object ptr) = set ptr"
  by (simp add: sort_object_def sort_loop_set)









section \<open>merge_keys\<close>

lemma merge_loop_subset: "set (merge_loop xs ys) \<subseteq> set xs \<union> set ys"
  by (induction xs ys rule: merge_loop.induct) (auto simp: Let_def)

lemma merge_loop_set:
  assumes "sorted_wrt (<) (map key_string xs)" and "sorted_wrt (<) (map key_string ys)"
  shows "set (merge_loop xs ys)
       = {kv \<in> set xs. key_string kv \<notin> key_string ` set ys} \<union> {kv \<in> set ys. defined (snd kv)}"
  using assms
proof (induction xs ys rule: merge_loop.induct)
  case (1 itm1 rest1 itm2 rest2)
  have r1: "\<forall>kv \<in> set rest1. key_string itm1 < key_string kv"
    and r2: "\<forall>kv \<in> set rest2. key_string itm2 < key_string kv"
    using "1.prems" by auto
  have s1: "sorted_wrt (<) (map key_string rest1)" and s2: "sorted_wrt (<) (map key_string rest2)"
    using "1.prems" by auto
  consider (lt) "key_string itm1 < key_string itm2"
    | (gt) "key_string itm2 < key_string itm1"
    | (eq) "key_string itm1 = key_string itm2"
    by (metis not_less_iff_gr_or_eq)
  then show ?case
  proof cases
    case lt
    then have c: "compare (key_string itm1) (key_string itm2) < 0" by (simp add: compare_less)
    have "key_string itm1 \<notin> key_string ` set (itm2 # rest2)"
      using lt r2 by (auto simp: image_iff)
    with "1.IH"(1) [OF refl c s1 "1.prems"(2)] c show ?thesis
      by (auto simp: Let_def)
  next
    case gt
    then have c: "\<not> compare (key_string itm1) (key_string itm2) < 0"
      and c': "0 < compare (key_string itm1) (key_string itm2)"
      by (simp_all add: compare_less compare_greater)
    have n: "\<forall>kv \<in> set (itm1 # rest1). key_string kv \<noteq> key_string itm2"
      using gt r1 by auto
    show ?thesis
    proof (cases "defined (snd itm2)")
      case True
      from "1.IH"(2) [OF refl c c' True "1.prems"(1) s2] c c' True n show ?thesis
        by (auto simp: Let_def)
    next
      case False
      from "1.IH"(3) [OF refl c c' False "1.prems"(1) s2] c c' False n show ?thesis
        by (auto simp: Let_def)
    qed
  next
    case eq
    then have c: "\<not> compare (key_string itm1) (key_string itm2) < 0"
      and c': "\<not> 0 < compare (key_string itm1) (key_string itm2)"
      by (simp_all add: compare_less compare_greater)
    have n: "\<forall>kv \<in> set rest1. key_string kv \<noteq> key_string itm2"
      using eq r1 by auto
    show ?thesis
    proof (cases "defined (snd itm2)")
      case True
      from "1.IH"(4) [OF refl c c' True s1 s2] c c' True n eq show ?thesis
        by (auto simp: Let_def)
    next
      case False
      from "1.IH"(5) [OF refl c c' False s1 s2] c c' False n eq show ?thesis
        by (auto simp: Let_def)
    qed
  qed
qed auto

lemma merge_loop_sorted:
  assumes "sorted_wrt (<) (map key_string xs)" and "sorted_wrt (<) (map key_string ys)"
  shows "sorted_wrt (<) (map key_string (merge_loop xs ys))"
  using assms
proof (induction xs ys rule: merge_loop.induct)
  case (1 itm1 rest1 itm2 rest2)
  have r1: "\<forall>kv \<in> set rest1. key_string itm1 < key_string kv"
    and r2: "\<forall>kv \<in> set rest2. key_string itm2 < key_string kv"
    using "1.prems" by auto
  have s1: "sorted_wrt (<) (map key_string rest1)" and s2: "sorted_wrt (<) (map key_string rest2)"
    using "1.prems" by auto
  consider (lt) "key_string itm1 < key_string itm2"
    | (gt) "key_string itm2 < key_string itm1"
    | (eq) "key_string itm1 = key_string itm2"
    by (metis not_less_iff_gr_or_eq)
  then show ?case
  proof cases
    case lt
    then have c: "compare (key_string itm1) (key_string itm2) < 0" by (simp add: compare_less)
    have "\<forall>kv \<in> set (merge_loop rest1 (itm2 # rest2)). key_string itm1 < key_string kv"
      using merge_loop_subset [of rest1 "itm2 # rest2"] r1 r2 lt by (auto intro: less_trans)
    with "1.IH"(1) [OF refl c s1 "1.prems"(2)] c show ?thesis
      by (simp add: Let_def)
  next
    case gt
    then have c: "\<not> compare (key_string itm1) (key_string itm2) < 0"
      and c': "0 < compare (key_string itm1) (key_string itm2)"
      by (simp_all add: compare_less compare_greater)
    have b: "\<forall>kv \<in> set (merge_loop (itm1 # rest1) rest2). key_string itm2 < key_string kv"
      using merge_loop_subset [of "itm1 # rest1" rest2] r1 r2 gt by (auto intro: less_trans)
    show ?thesis
    proof (cases "defined (snd itm2)")
      case True
      from "1.IH"(2) [OF refl c c' True "1.prems"(1) s2] c c' True b show ?thesis
        by (simp add: Let_def)
    next
      case False
      from "1.IH"(3) [OF refl c c' False "1.prems"(1) s2] c c' False show ?thesis
        by (simp add: Let_def)
    qed
  next
    case eq
    then have c: "\<not> compare (key_string itm1) (key_string itm2) < 0"
      and c': "\<not> 0 < compare (key_string itm1) (key_string itm2)"
      by (simp_all add: compare_less compare_greater)
    have b: "\<forall>kv \<in> set (merge_loop rest1 rest2). key_string itm2 < key_string kv"
      using merge_loop_subset [of rest1 rest2] r1 r2 eq by auto
    show ?thesis
    proof (cases "defined (snd itm2)")
      case True
      from "1.IH"(4) [OF refl c c' True s1 s2] c c' True b show ?thesis
        by (simp add: Let_def)
    next
      case False
      from "1.IH"(5) [OF refl c c' False s1 s2] c c' False show ?thesis
        by (simp add: Let_def)
    qed
  qed
qed (simp_all add: sorted_wrt_filter sorted_wrt_map)

text \<open>
  On two objects whose keys are strictly increasing (no key twice) \<^verbatim>\<open>merge_keys\<close> does what
  its documentation says: the keys of \<^verbatim>\<open>a.merge_keys(b)\<close> are keys of \<open>a\<close> or of \<open>b\<close>; at every
  key that \<open>b\<close> holds with a defined value the result holds the value of \<open>b\<close>; a key that
  \<open>b\<close> holds with the value undefined is absent from the result; the entries of \<open>a\<close> whose
  key \<open>b\<close> does not have and the defined entries of \<open>b\<close> are kept; and the keys of the
  result are strictly increasing again.
\<close>

theorem merge_keys_distinct:
  assumes a: "sorted_wrt (<) (map key_string (keys a))"
      and b: "sorted_wrt (<) (map key_string (keys b))"
  shows "key_string ` set (keys (merge_keys a b))
           \<subseteq> key_string ` set (keys a) \<union> key_string ` set (keys b)
       \<and> (\<forall>kv \<in> set (keys b). defined (snd kv) \<longrightarrow>
             subscript_key (merge_keys a b) (key_string kv) = snd kv
             \<and> subscript_key (merge_keys a b) (key_string kv) = subscript_key b (key_string kv))
       \<and> (\<forall>kv \<in> set (keys b). \<not> defined (snd kv) \<longrightarrow>
             key_string kv \<notin> key_string ` set (keys (merge_keys a b)))
       \<and> (\<forall>kv \<in> set (keys a). key_string kv \<notin> key_string ` set (keys b) \<longrightarrow>
             kv \<in> set (keys (merge_keys a b)))
       \<and> (\<forall>kv \<in> set (keys b). defined (snd kv) \<longrightarrow> kv \<in> set (keys (merge_keys a b)))
       \<and> sorted_wrt (<) (map key_string (keys (merge_keys a b)))"
proof -
  let ?m = "merge_loop (keys a) (keys b)"
  have k: "keys (merge_keys a b) = ?m" by (simp add: merge_keys_def keys_def)
  have set_m: "set ?m = {kv \<in> set (keys a). key_string kv \<notin> key_string ` set (keys b)}
                     \<union> {kv \<in> set (keys b). defined (snd kv)}"
    by (rule merge_loop_set [OF a b])
  have sorted_m: "sorted_wrt (<) (map key_string ?m)"
    by (rule merge_loop_sorted [OF a b])
  have inj_b: "inj_on key_string (set (keys b))"
    using b by (simp add: strict_sorted_iff distinct_map)
  have 1: "key_string ` set ?m \<subseteq> key_string ` set (keys a) \<union> key_string ` set (keys b)"
    using merge_loop_subset [of "keys a" "keys b"] by blast
  have 2: "subscript_key (merge_keys a b) (key_string kv) = snd kv
         \<and> subscript_key (merge_keys a b) (key_string kv) = subscript_key b (key_string kv)"
    if "kv \<in> set (keys b)" "defined (snd kv)" for kv
  proof -
    from that have "kv \<in> set ?m" by (simp add: set_m)
    then have "subscript_key (Object ?m) (key_string kv) = snd kv"
      by (rule subscript_key_found_strict [OF sorted_m])
    moreover have "subscript_key (Object (keys b)) (key_string kv) = snd kv"
      by (rule subscript_key_found_strict [OF b that(1)])
    moreover have "b = Object (keys b)"
      using that(1) by (cases b) (simp_all add: keys_def)
    ultimately show ?thesis by (simp add: merge_keys_def)
  qed
  have 3: "key_string kv \<notin> key_string ` set ?m" if "kv \<in> set (keys b)" "\<not> defined (snd kv)" for kv
  proof
    assume "key_string kv \<in> key_string ` set ?m"
    then obtain kv' where kv': "kv' \<in> set ?m" "key_string kv' = key_string kv" by auto
    then consider "kv' \<in> set (keys a)" "key_string kv' \<notin> key_string ` set (keys b)"
      | "kv' \<in> set (keys b)" "defined (snd kv')"
      by (auto simp: set_m)
    then show False
    proof cases
      case 1
      with kv' that show False by (metis imageI)
    next
      case 2
      with kv' that inj_b have "kv' = kv" by (auto dest: inj_onD)
      with 2 that show False by simp
    qed
  qed
  from 1 2 3 set_m sorted_m show ?thesis
    unfolding k by blast
qed

text \<open>
  The theorem at \<open>a = {"a": 1, "b": 2}\<close> and \<open>b = {"b": undefined, "c": 3}\<close>.
\<close>

theorem merge_keys_distinct_witness:
  "sorted_wrt (<) (map key_string (keys (Object [KeyValue ''a'' (Int32 1), KeyValue ''b'' (Int32 2)])))
   \<and> sorted_wrt (<) (map key_string (keys (Object [KeyValue ''b'' Undefined, KeyValue ''c'' (Int32 3)])))
   \<and> KeyValue ''c'' (Int32 3) \<in> set (keys (Object [KeyValue ''b'' Undefined, KeyValue ''c'' (Int32 3)]))
   \<and> defined (snd (KeyValue ''c'' (Int32 3)))
   \<and> subscript_key (merge_keys (Object [KeyValue ''a'' (Int32 1), KeyValue ''b'' (Int32 2)])
          (Object [KeyValue ''b'' Undefined, KeyValue ''c'' (Int32 3)])) ''c'' = Int32 3"
proof -
  let ?a = "Object [KeyValue ''a'' (Int32 1), KeyValue ''b'' (Int32 2)]"
  let ?b = "Object [KeyValue ''b'' Undefined, KeyValue ''c'' (Int32 3)]"
  have a: "sorted_wrt (<) (map key_string (keys ?a))" by (simp add: keys_def)
  have b: "sorted_wrt (<) (map key_string (keys ?b))" by (simp add: keys_def)
  have m: "KeyValue ''c'' (Int32 3) \<in> set (keys ?b)" by (simp add: keys_def)
  have d: "defined (snd (KeyValue ''c'' (Int32 3)))" by (simp add: defined_def)
  from merge_keys_distinct [OF a b] m d
  have "subscript_key (merge_keys ?a ?b) (key_string (KeyValue ''c'' (Int32 3))) = snd (KeyValue ''c'' (Int32 3))"
    by blast
  then have "subscript_key (merge_keys ?a ?b) ''c'' = Int32 3"
    by simp
  with a b m d show ?thesis by simp
qed

text \<open>
  C4 says, as the documentation of \<^verbatim>\<open>merge_keys\<close> does, that a key which the argument holds
  with the value undefined is absent from the result.  The code keeps it when the receiver
  holds the key twice, as the object does that the constructor builds from
  \<open>{{"k", 1}, {"k", 2}}\<close>: with the argument \<open>{{"k", undefined}}\<close> the first \<^verbatim>\<open>while\<close> statement
  passes one entry of each side, and the second one copies the other entry of \<open>k\<close> into the
  result.
\<close>

theorem merge_keys_keeps_erased_key:
  "keys (Value_initializer_list
           [Value_initializer_list [Value_string_view False ''k'' False, Int32 1],
            Value_initializer_list [Value_string_view False ''k'' False, Int32 2]])
     = [KeyValue ''k'' (Int32 1), KeyValue ''k'' (Int32 2)]
   \<and> keys (Value_initializer_list
           [Value_initializer_list [Value_string_view False ''k'' False, Undefined]])
     = [KeyValue ''k'' Undefined]
   \<and> keys (merge_keys
        (Value_initializer_list
           [Value_initializer_list [Value_string_view False ''k'' False, Int32 1],
            Value_initializer_list [Value_string_view False ''k'' False, Int32 2]])
        (Value_initializer_list
           [Value_initializer_list [Value_string_view False ''k'' False, Undefined]]))
     = [KeyValue ''k'' (Int32 2)]
   \<and> subscript_key (merge_keys
        (Value_initializer_list
           [Value_initializer_list [Value_string_view False ''k'' False, Int32 1],
            Value_initializer_list [Value_string_view False ''k'' False, Int32 2]])
        (Value_initializer_list
           [Value_initializer_list [Value_string_view False ''k'' False, Undefined]])) ''k''
     = Int32 2"
  by code_simp
section \<open>The number state and the escape decoder\<close>

lemma parse_state_StateNumber_stuck:
  assumes "p_pos p = c # cs" "\<not> number_char c" "\<not> is_valid_json_number data"
  shows "parse_state_StateNumber data p = None"
proof (rule ccontr)
  assume "parse_state_StateNumber data p \<noteq> None"
  then obtain y where y: "parse_state_StateNumber data p = Some y" by auto
  have "\<not> (p_pos p \<noteq> [] \<and> \<not> number_char (hd (p_pos p)) \<and> \<not> is_valid_json_number data)"
    using y
    by (rule parse_state_StateNumber.raw_induct [rotated])
       (fastforce split: list.splits if_splits)
  with assms show False by simp
qed

lemma parse_state_StateNumber_Nil:
  "p_pos p = [] \<Longrightarrow> parse_state_StateNumber data p = Some (True, set_back (StateNumber data) p)"
  by (subst parse_state_StateNumber.simps) simp

lemma parse_state_StateNumber_char:
  "p_pos p = c # cs \<Longrightarrow> number_char c \<Longrightarrow>
   parse_state_StateNumber data p = parse_state_StateNumber (data @ [c]) (p\<lparr>p_pos := cs\<rparr>)"
  by (subst parse_state_StateNumber.simps) simp


lemma write_loop_number_stuck:
  assumes "p_state p = DetectType # below" "p_pos p = CHR ''+'' # CHR '' '' # cs"
  shows "write_loop Format_text p = None"
proof -
  let ?p1 = "push_back (StateNumber []) p"
  have 1: "do_parse_cycle Format_text p = Some (True, ?p1)"
    using assms
    by (simp add: do_parse_cycle_def parse_state_def parse_state_DetectType_text.simps
        isspace_def isdigit_def)
  have "parse_state_StateNumber [] ?p1 = parse_state_StateNumber ''+'' (?p1\<lparr>p_pos := CHR '' '' # cs\<rparr>)"
    using assms parse_state_StateNumber_char [of ?p1 "CHR ''+''" "CHR '' '' # cs" "[]"]
    by (simp add: push_back_def number_char_def)
  also have "\<dots> = None"
    by (rule parse_state_StateNumber_stuck [of _ "CHR '' ''" cs])
       (simp_all add: number_char_def isdigit_def is_valid_json_number_def infinity_def)
  finally have 2: "do_parse_cycle Format_text ?p1 = None"
    by (simp add: do_parse_cycle_def parse_state_def push_back_def)
  have "write_loop Format_text p = write_loop Format_text ?p1"
    using assms 1 by (subst write_loop.simps) simp
  also have "\<dots> = None"
    using assms 2 by (subst write_loop.simps) (simp add: push_back_def)
  finally show ?thesis .
qed

text \<open>
  C7 fails on the code.  The chunk \<open>+\<close>, space: the number state accepts \<open>+\<close>, meets the
  space, finds that \<open>+\<close> is not a valid number and runs its \<^verbatim>\<open>while\<close> statement again
  without a change of state.  \<^verbatim>\<open>write\<close> does not return; no error is reported.
\<close>

theorem number_state_hangs:
  "Parser_write Format_text Parser_init ''+ '' = None"
  by (simp add: Parser_write_def Parser_init_def write_loop_number_stuck [where below = "[]" and cs = "[]"])

text \<open>
  C3 fails on the code for the same reason.  The input \<open>x+\<close>, space, fed whole: \<^verbatim>\<open>write\<close>
  returns false at \<open>x\<close> with the error flag set.  Fed as \<open>x\<close> and then \<open>+\<close>, space: the
  first call returns false with the error flag set, the second call enters the number
  state and does not return.
\<close>

theorem split_write_differs:
  "Parser_write Format_text Parser_init ''x+ ''
     = Some (False, \<lparr>p_state = [DetectType], p_pos = ''x+ '', p_result = Undefined, p_is_error = True\<rparr>)
   \<and> Parser_write Format_text Parser_init ''x''
     = Some (False, \<lparr>p_state = [DetectType], p_pos = ''x'', p_result = Undefined, p_is_error = True\<rparr>)
   \<and> Parser_write Format_text
        \<lparr>p_state = [DetectType], p_pos = ''x'', p_result = Undefined, p_is_error = True\<rparr> ''+ ''
     = None"
proof -
  have "Parser_write Format_text
        \<lparr>p_state = [DetectType], p_pos = ''x'', p_result = Undefined, p_is_error = True\<rparr> ''+ ''
     = None"
    by (simp add: Parser_write_def write_loop_number_stuck [where below = "[]" and cs = "[]"])
  moreover have "Parser_write Format_text Parser_init ''x+ ''
     = Some (False, \<lparr>p_state = [DetectType], p_pos = ''x+ '', p_result = Undefined, p_is_error = True\<rparr>)"
    by code_simp
  moreover have "Parser_write Format_text Parser_init ''x''
     = Some (False, \<lparr>p_state = [DetectType], p_pos = ''x'', p_result = Undefined, p_is_error = True\<rparr>)"
    by code_simp
  ultimately show ?thesis by simp
qed

text \<open>
  C9 fails on the code.  After the \<^verbatim>\<open>switch\<close> the decoder advances its output in every
  case, and the parser decodes in place: an escape that is not known leaves the byte
  that was in the buffer at the output position.  The text \<open>"a\xb"\<close> is parsed to the three
  bytes \<open>a\<close>, backslash, \<open>b\<close>, not to \<open>ab\<close>; the escape alone gives one byte, not none.
\<close>

theorem invalid_escape_leaves_byte:
  "decode_in_place [CHR 0x5C, CHR ''x''] = [CHR 0x5C]
   \<and> parse [CHR 0x22, CHR ''a'', CHR 0x5C, CHR ''x'', CHR ''b'', CHR 0x22]
       = Some (Inr (Value_string_view False [CHR ''a'', CHR 0x5C, CHR ''b''] False))
   \<and> get_string (Value_string_view False [CHR ''a'', CHR 0x5C, CHR ''b''] False)
       = [CHR ''a'', CHR 0x5C, CHR ''b'']"
  by code_simp

section \<open>The serializer produces the encoding\<close>

lemma filter_dropWhile_not: "filter (\<lambda>x. \<not> P x) (dropWhile P xs) = filter (\<lambda>x. \<not> P x) xs"
  by (induction xs) auto

lemma dropWhile_Cons_head: "dropWhile P xs = x # pos \<Longrightarrow> \<not> P x"
  by (metis dropWhile_eq_Cons_conv)

lemma encoding_array:
  "visit v = V_Container_Value a \<Longrightarrow>
   encoding print_normal format v
     = array_open format (length a)
       @ (case dropWhile (skipped format) a of
            [] \<Rightarrow> []
          | x # pos \<Rightarrow> encoding print_normal format x
                      @ frame_encoding print_normal format (Ser_StateArray pos))
       @ (case dropWhile (skipped format) a of [] \<Rightarrow> array_close format | x # pos \<Rightarrow> [])"
proof -
  assume v: "visit v = V_Container_Value a"
  have f: "filter (\<lambda>x. \<not> skipped format x) a
         = filter (\<lambda>x. \<not> skipped format x) (dropWhile (skipped format) a)"
    by (simp add: filter_dropWhile_not)
  show ?thesis
  proof (cases "dropWhile (skipped format) a")
    case Nil
    with v f show ?thesis
      by (subst encoding.simps) (simp add: joined_def del: dropWhile_eq_Nil_conv)
  next
    case (Cons x pos)
    then have "\<not> skipped format x" by (rule dropWhile_Cons_head)
    with v f Cons show ?thesis
      by (subst encoding.simps) (simp add: joined_def)
  qed
qed

lemma encoding_object:
  "visit v = V_Container_KeyValue a \<Longrightarrow>
   encoding print_normal format v
     = object_open format (length a)
       @ (case dropWhile (\<lambda>kv. skipped format (snd kv)) a of
            [] \<Rightarrow> []
          | kv # pos \<Rightarrow> member_encoding print_normal format kv
                       @ frame_encoding print_normal format (Ser_StateObject pos))
       @ (case dropWhile (\<lambda>kv. skipped format (snd kv)) a of [] \<Rightarrow> object_close format | x # pos \<Rightarrow> [])"
proof -
  assume v: "visit v = V_Container_KeyValue a"
  have f: "filter (\<lambda>kv. \<not> skipped format (snd kv)) a
         = filter (\<lambda>kv. \<not> skipped format (snd kv)) (dropWhile (\<lambda>kv. skipped format (snd kv)) a)"
    by (simp add: filter_dropWhile_not)
  show ?thesis
  proof (cases "dropWhile (\<lambda>kv. skipped format (snd kv)) a")
    case Nil
    with v f show ?thesis
      by (subst encoding.simps) (simp add: joined_def del: dropWhile_eq_Nil_conv)
  next
    case (Cons kv pos)
    then have "\<not> skipped format (snd kv)" by (rule dropWhile_Cons_head)
    with v f Cons show ?thesis
      by (subst encoding.simps) (simp add: joined_def member_encoding_def [abs_def])
  qed
qed

lemma encoding_scalar:
  assumes "\<forall>a. visit v \<noteq> V_Container_Value a" and "\<forall>a. visit v \<noteq> V_Container_KeyValue a"
  shows "encoding print_normal format v = render_scalar print_normal format v"
  using assms by (subst encoding.simps) (cases "visit v"; simp)

lemma put_out [simp]: "s_out_buff (put bytes s) = s_out_buff s @ bytes"
  by (simp add: put_def)

lemma render_value_array:
  "visit v = V_Container_Value a \<Longrightarrow>
   render_value print_normal format v s
     = (case dropWhile (skipped format) a of
          [] \<Rightarrow> put (array_close format) (put (array_open format (length a)) s)
        | x # pos \<Rightarrow>
            render_value print_normal format x
              (put (array_open format (length a)) s
                 \<lparr>s_stack := Ser_StateArray pos # s_stack s\<rparr>))"
  by (subst render_value.simps, cases "dropWhile (skipped format) a"; cases format)
     (simp_all add: Let_def array_open_def array_close_def put_def del: dropWhile_eq_Nil_conv)

lemma render_value_object:
  "visit v = V_Container_KeyValue a \<Longrightarrow>
   render_value print_normal format v s
     = (case dropWhile (\<lambda>kv. skipped format (snd kv)) a of
          [] \<Rightarrow> put (object_close format) (put (object_open format (length a)) s)
        | kv # pos \<Rightarrow>
            render_value print_normal format (snd kv)
              (put (object_open format (length a) @ render_key format (fst kv) @ colon format) s
                 \<lparr>s_stack := Ser_StateObject pos # s_stack s\<rparr>))"
  by (subst render_value.simps, cases "dropWhile (\<lambda>kv. skipped format (snd kv)) a"; cases format)
     (simp_all add: Let_def object_open_def object_close_def colon_def put_def
        del: dropWhile_eq_Nil_conv)

lemma render_value_scalar:
  assumes "\<forall>a. visit v \<noteq> V_Container_Value a" and "\<forall>a. visit v \<noteq> V_Container_KeyValue a"
  shows "render_value print_normal format v s = put (render_scalar print_normal format v) s"
  using assms by (subst render_value.simps) (cases "visit v"; simp)

text \<open>What \<^verbatim>\<open>render_value\<close> writes and what it leaves on the stack is the encoding of the value.\<close>

lemma render_value_encoding:
  "s_out_buff (render_value print_normal format v s)
     @ stack_encoding print_normal format (s_stack (render_value print_normal format v s))
   = s_out_buff s @ encoding print_normal format v
     @ stack_encoding print_normal format (s_stack s)"
proof (induction print_normal format v s rule: render_value.induct)
  case (1 print_normal format v s)
  show ?case
  proof (cases "visit v")
    case (V_Container_Value a)
    show ?thesis
    proof (cases "dropWhile (skipped format) a")
      case Nil
      with V_Container_Value show ?thesis
        by (simp add: render_value_array encoding_array del: dropWhile_eq_Nil_conv)
    next
      case (Cons x pos)
      let ?s = "put (if format = Format_text then ''[''
                     else render_binary_type_size BinaryType_array (of_nat (length a))) s"
      have eq: "render_value print_normal format v s
              = render_value print_normal format x (?s\<lparr>s_stack := Ser_StateArray pos # s_stack ?s\<rparr>)"
        using V_Container_Value Cons by (subst render_value.simps) (simp add: Let_def)
      from "1.IH"(1) [OF V_Container_Value refl Cons] V_Container_Value Cons show ?thesis
        unfolding eq
        by (cases format) (simp_all add: encoding_array stack_encoding_def array_open_def)
    qed
  next
    case (V_Container_KeyValue a)
    show ?thesis
    proof (cases "dropWhile (\<lambda>kv. skipped format (snd kv)) a")
      case Nil
      with V_Container_KeyValue show ?thesis
        by (simp add: render_value_object encoding_object del: dropWhile_eq_Nil_conv)
    next
      case (Cons kv pos)
      let ?s = "put (if format = Format_text then ''{''
                     else render_binary_type_size BinaryType_object (of_nat (length a))) s"
      let ?s1 = "put (render_key format (fst kv)) ?s"
      let ?s2 = "if format = Format_text then put '':'' ?s1 else ?s1"
      have eq: "render_value print_normal format v s
              = render_value print_normal format (snd kv)
                  (?s2\<lparr>s_stack := Ser_StateObject pos # s_stack ?s2\<rparr>)"
        using V_Container_KeyValue Cons by (subst render_value.simps) (simp add: Let_def)
      from "1.IH"(2) [OF V_Container_KeyValue refl Cons refl refl] V_Container_KeyValue Cons
      show ?thesis
        unfolding eq
        by (cases format)
           (simp_all add: encoding_object stack_encoding_def object_open_def colon_def
              member_encoding_def)
    qed
  qed (simp_all add: render_value_scalar encoding_scalar)
qed

lemma render_value_grows:
  "length (s_out_buff s) \<le> length (s_out_buff (render_value print_normal format v s))"
proof (induction print_normal format v s rule: render_value.induct)
  case (1 print_normal format v s)
  show ?case
  proof (cases "visit v")
    case (V_Container_Value a)
    show ?thesis
    proof (cases "dropWhile (skipped format) a")
      case Nil
      with V_Container_Value show ?thesis
        by (simp add: render_value_array del: dropWhile_eq_Nil_conv)
    next
      case (Cons x pos)
      let ?s = "put (if format = Format_text then ''[''
                     else render_binary_type_size BinaryType_array (of_nat (length a))) s"
      have eq: "render_value print_normal format v s
              = render_value print_normal format x (?s\<lparr>s_stack := Ser_StateArray pos # s_stack ?s\<rparr>)"
        using V_Container_Value Cons by (subst render_value.simps) (simp add: Let_def)
      from "1.IH"(1) [OF V_Container_Value refl Cons] show ?thesis
        unfolding eq by simp
    qed
  next
    case (V_Container_KeyValue a)
    show ?thesis
    proof (cases "dropWhile (\<lambda>kv. skipped format (snd kv)) a")
      case Nil
      with V_Container_KeyValue show ?thesis
        by (simp add: render_value_object del: dropWhile_eq_Nil_conv)
    next
      case (Cons kv pos)
      let ?s = "put (if format = Format_text then ''{''
                     else render_binary_type_size BinaryType_object (of_nat (length a))) s"
      let ?s1 = "put (render_key format (fst kv)) ?s"
      let ?s2 = "if format = Format_text then put '':'' ?s1 else ?s1"
      have eq: "render_value print_normal format v s
              = render_value print_normal format (snd kv)
                  (?s2\<lparr>s_stack := Ser_StateObject pos # s_stack ?s2\<rparr>)"
        using V_Container_KeyValue Cons by (subst render_value.simps) (simp add: Let_def)
      from "1.IH"(2) [OF V_Container_KeyValue refl Cons refl refl] show ?thesis
        unfolding eq by (cases format) simp_all
    qed
  qed (simp_all add: render_value_scalar)
qed

lemma render_binary_type_size_not_Nil [simp]: "render_binary_type_size t sz \<noteq> []"
  by (simp add: render_binary_type_size_def Let_def)

lemma array_open_length: "0 < length (array_open format n)"
  by (simp add: array_open_def)

lemma object_open_length: "0 < length (object_open format n)"
  by (simp add: object_open_def)

text \<open>A container always writes its opening; a value that writes nothing leaves the stack as it was.\<close>

lemma render_value_silent:
  assumes "length (s_out_buff (render_value print_normal format v s)) = length (s_out_buff s)"
  shows "s_stack (render_value print_normal format v s) = s_stack s"
proof (cases "visit v")
  case (V_Container_Value a)
  show ?thesis
  proof (cases "dropWhile (skipped format) a")
    case Nil
    with V_Container_Value assms array_open_length [of format "length a"] show ?thesis
      by (simp add: render_value_array del: dropWhile_eq_Nil_conv length_greater_0_conv)
  next
    case (Cons x pos)
    let ?s = "put (array_open format (length a)) s\<lparr>s_stack := Ser_StateArray pos # s_stack s\<rparr>"
    have "length (s_out_buff ?s) \<le> length (s_out_buff (render_value print_normal format x ?s))"
      by (rule render_value_grows)
    with V_Container_Value Cons assms array_open_length [of format "length a"] show ?thesis
      by (simp add: render_value_array del: length_greater_0_conv)
  qed
next
  case (V_Container_KeyValue a)
  show ?thesis
  proof (cases "dropWhile (\<lambda>kv. skipped format (snd kv)) a")
    case Nil
    with V_Container_KeyValue assms object_open_length [of format "length a"] show ?thesis
      by (simp add: render_value_object del: dropWhile_eq_Nil_conv length_greater_0_conv)
  next
    case (Cons kv pos)
    let ?s = "put (object_open format (length a) @ render_key format (fst kv) @ colon format) s
                \<lparr>s_stack := Ser_StateObject pos # s_stack s\<rparr>"
    have "length (s_out_buff ?s) \<le> length (s_out_buff (render_value print_normal format (snd kv) ?s))"
      by (rule render_value_grows)
    with V_Container_KeyValue Cons assms object_open_length [of format "length a"] show ?thesis
      by (simp add: render_value_object del: length_greater_0_conv)
  qed
qed (simp_all add: render_value_scalar)

lemma render_scalar_binary_not_Nil:
  assumes "\<forall>a. visit v \<noteq> V_Container_Value a" and "\<forall>a. visit v \<noteq> V_Container_KeyValue a"
  shows "render_scalar print_normal Format_binary v \<noteq> []"
  using assms
  by (cases "visit v")
     (simp_all add: render_scalar_def render_string_view_def)

lemma render_value_binary_grows:
  "length (s_out_buff s) < length (s_out_buff (render_value print_normal Format_binary v s))"
proof (cases "length (s_out_buff (render_value print_normal Format_binary v s)) = length (s_out_buff s)")
  case False
  with render_value_grows [of s print_normal Format_binary v] show ?thesis by simp
next
  case True
  show ?thesis
  proof (cases "visit v")
    case (V_Container_Value a)
    show ?thesis
    proof (cases "dropWhile (skipped Format_binary) a")
      case Nil
      with V_Container_Value array_open_length [of Format_binary "length a"] show ?thesis
        by (simp add: render_value_array del: dropWhile_eq_Nil_conv length_greater_0_conv)
    next
      case (Cons x pos)
      let ?s = "put (array_open Format_binary (length a)) s\<lparr>s_stack := Ser_StateArray pos # s_stack s\<rparr>"
      have "length (s_out_buff ?s) \<le> length (s_out_buff (render_value print_normal Format_binary x ?s))"
        by (rule render_value_grows)
      with V_Container_Value Cons array_open_length [of Format_binary "length a"] show ?thesis
        by (simp add: render_value_array del: length_greater_0_conv)
    qed
  next
    case (V_Container_KeyValue a)
    show ?thesis
    proof (cases "dropWhile (\<lambda>kv. skipped Format_binary (snd kv)) a")
      case Nil
      with V_Container_KeyValue object_open_length [of Format_binary "length a"] show ?thesis
        by (simp add: render_value_object del: dropWhile_eq_Nil_conv length_greater_0_conv)
    next
      case (Cons kv pos)
      let ?s = "put (object_open Format_binary (length a) @ render_key Format_binary (fst kv)
                      @ colon Format_binary) s
                  \<lparr>s_stack := Ser_StateObject pos # s_stack s\<rparr>"
      have "length (s_out_buff ?s)
              \<le> length (s_out_buff (render_value print_normal Format_binary (snd kv) ?s))"
        by (rule render_value_grows)
      with V_Container_KeyValue Cons object_open_length [of Format_binary "length a"] show ?thesis
        by (simp add: render_value_object del: length_greater_0_conv)
    qed
  qed (simp_all add: render_value_scalar render_scalar_binary_not_Nil)
qed

lemma render_value_ranges:
  "list_all is_range (s_stack s) \<Longrightarrow>
   list_all is_range (s_stack (render_value print_normal format v s))"
proof (induction print_normal format v s rule: render_value.induct)
  case (1 print_normal format v s)
  show ?case
  proof (cases "visit v")
    case (V_Container_Value a)
    show ?thesis
    proof (cases "dropWhile (skipped format) a")
      case Nil
      with V_Container_Value "1.prems" show ?thesis
        by (simp add: render_value_array del: dropWhile_eq_Nil_conv)
    next
      case (Cons x pos)
      let ?s = "put (if format = Format_text then ''[''
                     else render_binary_type_size BinaryType_array (of_nat (length a))) s"
      have eq: "render_value print_normal format v s
              = render_value print_normal format x (?s\<lparr>s_stack := Ser_StateArray pos # s_stack ?s\<rparr>)"
        using V_Container_Value Cons by (subst render_value.simps) (simp add: Let_def)
      from "1.IH"(1) [OF V_Container_Value refl Cons] "1.prems" show ?thesis
        unfolding eq by simp
    qed
  next
    case (V_Container_KeyValue a)
    show ?thesis
    proof (cases "dropWhile (\<lambda>kv. skipped format (snd kv)) a")
      case Nil
      with V_Container_KeyValue "1.prems" show ?thesis
        by (simp add: render_value_object del: dropWhile_eq_Nil_conv)
    next
      case (Cons kv pos)
      let ?s = "put (if format = Format_text then ''{''
                     else render_binary_type_size BinaryType_object (of_nat (length a))) s"
      let ?s1 = "put (render_key format (fst kv)) ?s"
      let ?s2 = "if format = Format_text then put '':'' ?s1 else ?s1"
      have eq: "render_value print_normal format v s
              = render_value print_normal format (snd kv)
                  (?s2\<lparr>s_stack := Ser_StateObject pos # s_stack ?s2\<rparr>)"
        using V_Container_KeyValue Cons by (subst render_value.simps) (simp add: Let_def)
      from "1.IH"(2) [OF V_Container_KeyValue refl Cons refl refl] "1.prems" show ?thesis
        unfolding eq by (cases format) simp_all
    qed
  qed (use "1.prems" in \<open>simp_all add: render_value_scalar\<close>)
qed

lemma put_Nil [simp]: "put [] s = s"
  by (simp add: put_def)

lemma skipped_text: "skipped format x \<longleftrightarrow> format = Format_text \<and> \<not> defined x"
  by (cases format) (simp_all add: skipped_def)

lemma ser_next_Value:
  "s_stack s = Ser_Value v # below \<Longrightarrow>
   ser_next print_normal format s = render_value print_normal format v (s\<lparr>s_stack := below\<rparr>)"
  by (subst ser_next.simps) simp

lemma ser_next_Array_Nil:
  "s_stack s = Ser_StateArray [] # below \<Longrightarrow>
   ser_next print_normal format s
     = ser_next print_normal format (put (array_close format) s\<lparr>s_stack := below\<rparr>)"
  by (subst ser_next.simps) (simp add: array_close_def)

lemma ser_next_Array_Cons:
  "s_stack s = Ser_StateArray (x # pos) # below \<Longrightarrow>
   ser_next print_normal format s
     = (if skipped format x then
          ser_next print_normal format (s\<lparr>s_stack := Ser_StateArray pos # below\<rparr>)
        else
          render_value print_normal format x
            (put (separator format) (s\<lparr>s_stack := Ser_StateArray pos # below\<rparr>)))"
  by (subst ser_next.simps) (simp add: separator_def skipped_text Let_def)

lemma ser_next_Object_Nil:
  "s_stack s = Ser_StateObject [] # below \<Longrightarrow>
   ser_next print_normal format s
     = ser_next print_normal format (put (object_close format) s\<lparr>s_stack := below\<rparr>)"
  by (subst ser_next.simps) (simp add: object_close_def)

lemma ser_next_Object_Cons:
  "s_stack s = Ser_StateObject (kv # pos) # below \<Longrightarrow>
   ser_next print_normal format s
     = (if skipped format (snd kv) then
          ser_next print_normal format (s\<lparr>s_stack := Ser_StateObject pos # below\<rparr>)
        else
          render_value print_normal format (snd kv)
            (put (separator format @ render_key format (fst kv) @ colon format)
               (s\<lparr>s_stack := Ser_StateObject pos # below\<rparr>)))"
  by (subst ser_next.simps)
     (simp add: separator_def colon_def skipped_text Let_def put_def)

text \<open>A proof rule for \<^verbatim>\<open>next\<close> that follows the shape of the stack.\<close>

lemma ser_next_cases [case_names Empty Value Array_Nil Array_skip Array_render Object_Nil Object_skip Object_render]:
  assumes "s_stack s = [] \<Longrightarrow> P"
    and "\<And>v below. s_stack s = Ser_Value v # below \<Longrightarrow> P"
    and "\<And>below. s_stack s = Ser_StateArray [] # below \<Longrightarrow> P"
    and "\<And>x pos below. s_stack s = Ser_StateArray (x # pos) # below \<Longrightarrow> skipped format x \<Longrightarrow> P"
    and "\<And>x pos below. s_stack s = Ser_StateArray (x # pos) # below \<Longrightarrow> \<not> skipped format x \<Longrightarrow> P"
    and "\<And>below. s_stack s = Ser_StateObject [] # below \<Longrightarrow> P"
    and "\<And>kv pos below. s_stack s = Ser_StateObject (kv # pos) # below \<Longrightarrow> skipped format (snd kv) \<Longrightarrow> P"
    and "\<And>kv pos below. s_stack s = Ser_StateObject (kv # pos) # below \<Longrightarrow> \<not> skipped format (snd kv) \<Longrightarrow> P"
  shows P
proof (cases "s_stack s")
  case Nil
  then show ?thesis by (rule assms(1))
next
  case (Cons top below)
  show ?thesis
  proof (cases top)
    case (Ser_Value v)
    with Cons show ?thesis by (intro assms(2)) simp
  next
    case (Ser_StateObject rest)
    with Cons show ?thesis
      by (cases rest; cases "skipped format (snd (hd rest))") (auto intro: assms(6,7,8))
  next
    case (Ser_StateArray rest)
    with Cons show ?thesis
      by (cases rest; cases "skipped format (hd rest)") (auto intro: assms(3,4,5))
  qed
qed

lemma ser_next_induct [case_names Empty Value Array_Nil Array_skip Array_render Object_Nil Object_skip Object_render]:
  assumes "\<And>s. s_stack s = [] \<Longrightarrow> P s"
    and "\<And>s v below. s_stack s = Ser_Value v # below \<Longrightarrow> P s"
    and "\<And>s below. s_stack s = Ser_StateArray [] # below \<Longrightarrow>
           P (put (array_close format) s\<lparr>s_stack := below\<rparr>) \<Longrightarrow> P s"
    and "\<And>s x pos below. s_stack s = Ser_StateArray (x # pos) # below \<Longrightarrow> skipped format x \<Longrightarrow>
           P (s\<lparr>s_stack := Ser_StateArray pos # below\<rparr>) \<Longrightarrow> P s"
    and "\<And>s x pos below. s_stack s = Ser_StateArray (x # pos) # below \<Longrightarrow> \<not> skipped format x \<Longrightarrow> P s"
    and "\<And>s below. s_stack s = Ser_StateObject [] # below \<Longrightarrow>
           P (put (object_close format) s\<lparr>s_stack := below\<rparr>) \<Longrightarrow> P s"
    and "\<And>s kv pos below. s_stack s = Ser_StateObject (kv # pos) # below \<Longrightarrow> skipped format (snd kv) \<Longrightarrow>
           P (s\<lparr>s_stack := Ser_StateObject pos # below\<rparr>) \<Longrightarrow> P s"
    and "\<And>s kv pos below. s_stack s = Ser_StateObject (kv # pos) # below \<Longrightarrow> \<not> skipped format (snd kv) \<Longrightarrow> P s"
  shows "P s"
proof (induction "sum_list (map frame_length (s_stack s))" arbitrary: s rule: less_induct)
  case less
  show ?case
  proof (cases rule: ser_next_cases [where s = s and format = format])
    case Empty
    then show ?thesis by (rule assms(1))
  next
    case (Value v below)
    then show ?thesis by (rule assms(2))
  next
    case (Array_Nil below)
    then show ?thesis
      by (intro assms(3) [OF Array_Nil] less) simp
  next
    case (Array_skip x pos below)
    then show ?thesis
      by (intro assms(4) [OF Array_skip] less) simp
  next
    case (Array_render x pos below)
    then show ?thesis by (rule assms(5))
  next
    case (Object_Nil below)
    then show ?thesis
      by (intro assms(6) [OF Object_Nil] less) simp
  next
    case (Object_skip kv pos below)
    then show ?thesis
      by (intro assms(7) [OF Object_skip] less) simp
  next
    case (Object_render kv pos below)
    then show ?thesis by (rule assms(8))
  qed
qed

lemma ser_next_encoding:
  "s_out_buff (ser_next print_normal format s)
     @ stack_encoding print_normal format (s_stack (ser_next print_normal format s))
   = s_out_buff s @ stack_encoding print_normal format (s_stack s)"
proof (induction s rule: ser_next_induct [where format = format])
  case (Empty s)
  then show ?case by (simp add: ser_next_empty)
next
  case (Value s v below)
  show ?case
    unfolding ser_next_Value [OF Value]
    using Value render_value_encoding [of print_normal format v "s\<lparr>s_stack := below\<rparr>"]
    by (simp add: stack_encoding_def)
next
  case (Array_Nil s below)
  show ?case
    unfolding ser_next_Array_Nil [OF Array_Nil(1)]
    using Array_Nil by (simp add: stack_encoding_def separated_def)
next
  case (Array_skip s x pos below)
  show ?case
    unfolding ser_next_Array_Cons [OF Array_skip(1)]
    using Array_skip by (simp add: stack_encoding_def)
next
  case (Array_render s x pos below)
  show ?case
    unfolding ser_next_Array_Cons [OF Array_render(1)]
    using Array_render
      render_value_encoding [of print_normal format x
        "put (separator format) (s\<lparr>s_stack := Ser_StateArray pos # below\<rparr>)"]
    by (simp add: stack_encoding_def separated_def)
next
  case (Object_Nil s below)
  show ?case
    unfolding ser_next_Object_Nil [OF Object_Nil(1)]
    using Object_Nil by (simp add: stack_encoding_def separated_def)
next
  case (Object_skip s kv pos below)
  show ?case
    unfolding ser_next_Object_Cons [OF Object_skip(1)]
    using Object_skip by (simp add: stack_encoding_def)
next
  case (Object_render s kv pos below)
  show ?case
    unfolding ser_next_Object_Cons [OF Object_render(1)]
    using Object_render
      render_value_encoding [of print_normal format "snd kv"
        "put (separator format @ render_key format (fst kv) @ colon format)
           (s\<lparr>s_stack := Ser_StateObject pos # below\<rparr>)"]
    by (simp add: stack_encoding_def separated_def member_encoding_def)
qed

lemma ser_next_grows:
  "length (s_out_buff s) \<le> length (s_out_buff (ser_next print_normal format s))"
proof (induction s rule: ser_next_induct [where format = format])
  case (Empty s)
  then show ?case by (simp add: ser_next_empty)
next
  case (Value s v below)
  show ?case
    unfolding ser_next_Value [OF Value]
    using render_value_grows [of "s\<lparr>s_stack := below\<rparr>" print_normal format v] by simp
next
  case (Array_Nil s below)
  show ?case
    unfolding ser_next_Array_Nil [OF Array_Nil(1)]
    using Array_Nil by simp
next
  case (Array_skip s x pos below)
  show ?case
    unfolding ser_next_Array_Cons [OF Array_skip(1)]
    using Array_skip by simp
next
  case (Array_render s x pos below)
  show ?case
    unfolding ser_next_Array_Cons [OF Array_render(1)]
    using Array_render
      render_value_grows [of "put (separator format) (s\<lparr>s_stack := Ser_StateArray pos # below\<rparr>)"
        print_normal format x]
    by simp
next
  case (Object_Nil s below)
  show ?case
    unfolding ser_next_Object_Nil [OF Object_Nil(1)]
    using Object_Nil by simp
next
  case (Object_skip s kv pos below)
  show ?case
    unfolding ser_next_Object_Cons [OF Object_skip(1)]
    using Object_skip by simp
next
  case (Object_render s kv pos below)
  show ?case
    unfolding ser_next_Object_Cons [OF Object_render(1)]
    using Object_render
      render_value_grows [of "put (separator format @ render_key format (fst kv) @ colon format)
         (s\<lparr>s_stack := Ser_StateObject pos # below\<rparr>)" print_normal format "snd kv"]
    by simp
qed

lemma ser_next_ranges:
  "list_all is_range (s_stack s) \<Longrightarrow>
   list_all is_range (s_stack (ser_next print_normal format s))"
proof (induction s rule: ser_next_induct [where format = format])
  case (Empty s)
  then show ?case by (simp add: ser_next_empty)
next
  case (Value s v below)
  then show ?case by simp
next
  case (Array_Nil s below)
  show ?case
    unfolding ser_next_Array_Nil [OF Array_Nil(1)]
    using Array_Nil by simp
next
  case (Array_skip s x pos below)
  show ?case
    unfolding ser_next_Array_Cons [OF Array_skip(1)]
    using Array_skip by simp
next
  case (Array_render s x pos below)
  show ?case
    unfolding ser_next_Array_Cons [OF Array_render(1)]
    using Array_render by (simp add: render_value_ranges)
next
  case (Object_Nil s below)
  show ?case
    unfolding ser_next_Object_Nil [OF Object_Nil(1)]
    using Object_Nil by simp
next
  case (Object_skip s kv pos below)
  show ?case
    unfolding ser_next_Object_Cons [OF Object_skip(1)]
    using Object_skip by simp
next
  case (Object_render s kv pos below)
  show ?case
    unfolding ser_next_Object_Cons [OF Object_render(1)]
    using Object_render by (simp add: render_value_ranges)
qed

text \<open>
  When the stack holds ranges only, a call of \<^verbatim>\<open>next\<close> that writes nothing has emptied
  the stack.
\<close>

lemma ser_next_silent:
  "list_all is_range (s_stack s) \<Longrightarrow>
   length (s_out_buff (ser_next print_normal format s)) = length (s_out_buff s) \<Longrightarrow>
   s_stack (ser_next print_normal format s) = []"
proof (induction s rule: ser_next_induct [where format = format])
  case (Empty s)
  then show ?case by (simp add: ser_next_empty)
next
  case (Value s v below)
  then show ?case by simp
next
  case (Array_Nil s below)
  let ?s = "put (array_close format) s\<lparr>s_stack := below\<rparr>"
  have g: "length (s_out_buff ?s) \<le> length (s_out_buff (ser_next print_normal format ?s))"
    by (rule ser_next_grows)
  from Array_Nil(3,4) g have "array_close format = []"
    unfolding ser_next_Array_Nil [OF Array_Nil(1)] by simp
  with Array_Nil show ?case
    unfolding ser_next_Array_Nil [OF Array_Nil(1)] by simp
next
  case (Array_skip s x pos below)
  then show ?case
    unfolding ser_next_Array_Cons [OF Array_skip(1)] by simp
next
  case (Array_render s x pos below)
  let ?s = "put (separator format) (s\<lparr>s_stack := Ser_StateArray pos # below\<rparr>)"
  have "length (s_out_buff s) < length (s_out_buff (render_value print_normal format x ?s))"
  proof (cases format)
    case Format_text
    with render_value_grows [of ?s print_normal format x] show ?thesis
      by (simp add: separator_def)
  next
    case Format_binary
    with render_value_binary_grows [of ?s print_normal x] show ?thesis
      by (simp add: separator_def)
  qed
  with Array_render show ?case
    unfolding ser_next_Array_Cons [OF Array_render(1)] by simp
next
  case (Object_Nil s below)
  let ?s = "put (object_close format) s\<lparr>s_stack := below\<rparr>"
  have g: "length (s_out_buff ?s) \<le> length (s_out_buff (ser_next print_normal format ?s))"
    by (rule ser_next_grows)
  from Object_Nil(3,4) g have "object_close format = []"
    unfolding ser_next_Object_Nil [OF Object_Nil(1)] by simp
  with Object_Nil show ?case
    unfolding ser_next_Object_Nil [OF Object_Nil(1)] by simp
next
  case (Object_skip s kv pos below)
  then show ?case
    unfolding ser_next_Object_Cons [OF Object_skip(1)] by simp
next
  case (Object_render s kv pos below)
  let ?s = "put (separator format @ render_key format (fst kv) @ colon format)
              (s\<lparr>s_stack := Ser_StateObject pos # below\<rparr>)"
  have "length (s_out_buff s) < length (s_out_buff (render_value print_normal format (snd kv) ?s))"
  proof (cases format)
    case Format_text
    with render_value_grows [of ?s print_normal format "snd kv"] show ?thesis
      by (simp add: separator_def)
  next
    case Format_binary
    with render_value_binary_grows [of ?s print_normal "snd kv"] show ?thesis
      by (simp add: separator_def)
  qed
  with Object_render show ?case
    unfolding ser_next_Object_Cons [OF Object_render(1)] by simp
qed

lemma stringify_loop_encoding:
  "list_all is_range (s_stack ser) \<Longrightarrow>
   stringify_loop print_normal format ser = stack_encoding print_normal format (s_stack ser)"
proof (induction print_normal format ser rule: stringify_loop.induct)
  case (1 print_normal format ser)
  let ?s0 = "ser\<lparr>s_out_buff := []\<rparr>"
  let ?s1 = "read print_normal format ser"
  have r: "?s1 = ser_next print_normal format ?s0" by (simp add: read_def)
  have enc: "s_out_buff ?s1 @ stack_encoding print_normal format (s_stack ?s1)
           = stack_encoding print_normal format (s_stack ser)"
    using ser_next_encoding [of print_normal format ?s0] by (simp add: r)
  have inv: "list_all is_range (s_stack ?s1)"
    using "1.prems" ser_next_ranges [of ?s0 print_normal format] by (simp add: r)
  show ?case
  proof (cases "s_out_buff ?s1 = []")
    case True
    then have "s_stack ?s1 = []"
      using "1.prems" ser_next_silent [of ?s0 print_normal format] by (simp add: r)
    with enc True have "stack_encoding print_normal format (s_stack ser) = []"
      by (simp add: stack_encoding_def)
    with True show ?thesis
      by (subst stringify_loop.simps) (simp add: Let_def)
  next
    case False
    from "1.IH" [OF refl refl False inv] enc False show ?thesis
      by (subst stringify_loop.simps) (simp add: Let_def)
  qed
qed

text \<open>The chunks of the serializer, appended, are the encoding of the value.\<close>

lemma stringify_with_encoding:
  "stringify_with print_normal format v = encoding print_normal format v"
proof -
  let ?s0 = "\<lparr>s_out_buff = [], s_stack = []\<rparr>"
  let ?s1 = "render_value print_normal format v ?s0"
  have r: "read print_normal format (Serializer_init v) = ?s1"
    by (simp add: read_def Serializer_init_def ser_next_Value)
  have enc: "s_out_buff ?s1 @ stack_encoding print_normal format (s_stack ?s1)
           = encoding print_normal format v"
    using render_value_encoding [of print_normal format v ?s0] by (simp add: stack_encoding_def)
  have inv: "list_all is_range (s_stack ?s1)"
    using render_value_ranges [of ?s0 print_normal format v] by simp
  show ?thesis
  proof (cases "s_out_buff ?s1 = []")
    case True
    then have "s_stack ?s1 = []"
      using render_value_silent [of print_normal format v ?s0] by simp
    with enc True have "encoding print_normal format v = []"
      by (simp add: stack_encoding_def)
    with True r show ?thesis
      unfolding stringify_with_def
      by (subst stringify_loop.simps) (simp add: Let_def)
  next
    case False
    with r enc stringify_loop_encoding [OF inv, of print_normal format] show ?thesis
      unfolding stringify_with_def
      by (subst stringify_loop.simps) (simp add: Let_def)
  qed
qed

lemma stringify_encoding: "stringify print_normal v = encoding print_normal Format_text v"
  by (simp add: stringify_def stringify_with_encoding)

lemma binarize_encoding: "binarize v = encoding (\<lambda>d. []) Format_binary v"
  by (simp add: binarize_def stringify_with_encoding)

lemma stringify_Object:
  "stringify print_normal (Object kvs)
     = ''{'' @ joined Format_text
                 (map (\<lambda>kv. [CHR 0x22] @ encode (key_string kv) @ [CHR 0x22] @ '':''
                              @ stringify print_normal (snd kv))
                      (filter (\<lambda>kv. defined (snd kv)) kvs))
       @ ''}''"
  by (simp add: stringify_encoding encoding.simps [of _ _ "Object kvs"] object_open_def
      object_close_def skipped_def render_key_def render_string_view_def colon_def key_string_def)

text \<open>
  C6.  The text serializer leaves out the entries of an object whose value is undefined:
  the text of an object is the brace, the entries with a defined value as
  \<open>"key":value\<close> with one comma between two of them, and the closing brace; so it is the
  text of the object without those entries.  The object \<open>{"a":1, "b":undefined, "c":3}\<close>
  gives exactly \<open>{"a":1,"c":3}\<close>, and undefined at the top level gives \<open>null\<close>.
\<close>

theorem undefined_members_omitted:
  "stringify print_normal (Object kvs)
     = ''{'' @ joined Format_text
                 (map (\<lambda>kv. [CHR 0x22] @ encode (key_string kv) @ [CHR 0x22] @ '':''
                              @ stringify print_normal (snd kv))
                      (filter (\<lambda>kv. defined (snd kv)) kvs))
       @ ''}''
   \<and> stringify print_normal (Object kvs)
     = stringify print_normal (Object (filter (\<lambda>kv. defined (snd kv)) kvs))
   \<and> stringify print_normal
       (Value_initializer_list
          [Value_initializer_list [Value_string_view False ''a'' False, Int32 1],
           Value_initializer_list [Value_string_view False ''b'' False, Undefined],
           Value_initializer_list [Value_string_view False ''c'' False, Int32 3]])
     = [CHR ''{'', CHR 0x22, CHR ''a'', CHR 0x22, CHR '':'', CHR ''1'', CHR '','',
        CHR 0x22, CHR ''c'', CHR 0x22, CHR '':'', CHR ''3'', CHR ''}'']
   \<and> stringify print_normal Undefined = ''null''"
proof -
  have "stringify print_normal
       (Value_initializer_list
          [Value_initializer_list [Value_string_view False ''a'' False, Int32 1],
           Value_initializer_list [Value_string_view False ''b'' False, Undefined],
           Value_initializer_list [Value_string_view False ''c'' False, Int32 3]])
     = [CHR ''{'', CHR 0x22, CHR ''a'', CHR 0x22, CHR '':'', CHR ''1'', CHR '','',
        CHR 0x22, CHR ''c'', CHR 0x22, CHR '':'', CHR ''3'', CHR ''}'']"
    by code_simp
  moreover have "stringify print_normal Undefined = ''null''"
    by code_simp
  ultimately show ?thesis
    by (simp add: stringify_Object)
qed


section \<open>The binary format read back\<close>

subsection \<open>Bytes and sizes\<close>


lemma and_255: "(x :: 'a::len word) AND 0xFF = take_bit 8 x"
  by (simp add: take_bit_eq_mask mask_eq_exp_minus_1)

lemma of_char_word:
  "(of_char (char_of (unat (w :: 'a::len word))) :: 'a word) = take_bit 8 w"
proof -
  have "(of_char (char_of (unat w)) :: 'a word) = of_nat (of_char (char_of (unat w)) :: nat)"
    by (rule of_nat_of_char [symmetric])
  also have "\<dots> = of_nat (take_bit 8 (unat w))"
    by (simp add: take_bit_eq_mod)
  also have "\<dots> = of_nat (unat (take_bit 8 w))"
    by (simp add: unsigned_take_bit_eq)
  also have "\<dots> = take_bit 8 w"
    by simp
  finally show ?thesis .
qed

lemma of_char_byte8 [simp]: "(of_char (char_of (unat (b :: 8 word))) :: 8 word) = b"
  by (simp add: of_char_word take_bit_word_eq_self)

lemma of_char_byte64 [simp]:
  "(of_char (char_of (unat (take_bit 8 x :: 64 word))) :: 64 word) = take_bit 8 x"
  by (simp add: of_char_word)

lemma read_size_bytes:
  "foldl (\<lambda>accum c. push_bit 8 accum OR of_char c) accum (size_bytes k val)
     = push_bit (8 * k) accum OR take_bit (8 * k) (val :: 64 word)"
proof (induction k arbitrary: accum)
  case 0
  then show ?case by simp
next
  case (Suc k)
  have "push_bit (8 * k) (push_bit 8 accum OR take_bit 8 (drop_bit (k * 8) val)) OR take_bit (8 * k) val
      = push_bit (8 * Suc k) accum OR take_bit (8 * Suc k) val"
    by (rule bit_eqI) (auto simp: bit_simps ac_simps)
  with Suc show ?case by (simp add: and_255)
qed

lemma count_bytes_loop_acc:
  "count_bytes_loop n tmp c = c + count_bytes_loop n tmp 0"
proof (induction n arbitrary: tmp c)
  case 0
  then show ?case by simp
next
  case (Suc n)
  from Suc [of "drop_bit 8 tmp" "c + (if 0 < tmp then 1 else 0)"]
       Suc [of "drop_bit 8 tmp" "if 0 < tmp then 1 else 0"]
  show ?case by simp
qed

lemma count_bytes_loop_le: "count_bytes_loop n tmp 0 \<le> n"
proof (induction n arbitrary: tmp)
  case 0
  then show ?case by simp
next
  case (Suc n)
  from Suc [of "drop_bit 8 tmp"] count_bytes_loop_acc [of n "drop_bit 8 tmp" "if 0 < tmp then 1 else 0"]
  show ?case by simp
qed

lemma count_bytes_loop_zero: "count_bytes_loop n (0 :: 64 word) 0 = 0"
  by (induction n) simp_all

lemma count_bytes_loop_enough:
  "drop_bit (8 * n) tmp = 0 \<Longrightarrow> drop_bit (8 * count_bytes_loop n tmp 0) (tmp :: 64 word) = 0"
proof (induction n arbitrary: tmp)
  case 0
  then show ?case by simp
next
  case (Suc n)
  show ?case
  proof (cases "tmp = 0")
    case True
    then show ?thesis by (simp add: count_bytes_loop_zero)
  next
    case False
    then have pos: "0 < tmp" by (simp add: word_greater_zero_iff)
    have "drop_bit (8 * n) (drop_bit 8 tmp) = 0"
      using Suc.prems by (simp add: drop_bit_drop_bit ac_simps)
    from Suc.IH [OF this] pos count_bytes_loop_acc [of n "drop_bit 8 tmp" 1]
    show ?thesis by (simp add: drop_bit_drop_bit ac_simps)
  qed
qed

text \<open>The bytes written for a size are enough to hold it.\<close>

lemma count_bytes_fits:
  "take_bit (8 * max 1 (count_bytes_loop 8 sz 0)) (sz :: 64 word) = sz"
proof -
  have "drop_bit (8 * 8) sz = 0" by (simp add: drop_bit_eq_zero_iff_not_bit_last) 
  then have z: "drop_bit (8 * count_bytes_loop 8 sz 0) sz = 0"
    by (rule count_bytes_loop_enough)
  have "drop_bit (8 * max 1 (count_bytes_loop 8 sz 0)) sz = 0"
  proof (cases "count_bytes_loop 8 sz 0 = 0")
    case True
    with z have "sz = 0" by simp
    then show ?thesis by simp
  next
    case False
    then have "max 1 (count_bytes_loop 8 sz 0) = count_bytes_loop 8 sz 0" by simp
    with z show ?thesis by simp
  qed
  then show ?thesis
    by (metis bits_ident push_bit_of_0 add.left_neutral)
qed

lemma write_loop_cycle:
  "p_pos p \<noteq> [] \<Longrightarrow> do_parse_cycle format p = Some (True, p') \<Longrightarrow>
   write_loop format p = write_loop format p'"
  by (subst write_loop.simps) simp

lemma write_loop_finish:
  "p_pos p \<noteq> [] \<Longrightarrow> p_state p = st # below \<Longrightarrow>
   parse_state format st p = Some (False, p') \<Longrightarrow>
   write_loop format p = resume format p'"
  by (subst write_loop.simps) (simp add: do_parse_cycle_def resume_def split: prod.splits)

lemma write_loop_more:
  "p_pos p \<noteq> [] \<Longrightarrow> p_state p = st # below \<Longrightarrow>
   parse_state format st p = Some (True, p') \<Longrightarrow>
   write_loop format p = write_loop format p'"
  by (subst write_loop.simps) (simp add: do_parse_cycle_def)

lemma finish_loop_pop:
  "\<not> err \<Longrightarrow>
   finish_loop \<lparr>p_state = done # st # below, p_pos = inp, p_result = r, p_is_error = err\<rparr>
     = (case finish_state st \<lparr>p_state = st # below, p_pos = inp, p_result = r, p_is_error = err\<rparr> of
          (need_more, p') \<Rightarrow> if need_more then (True, p') else finish_loop p')"
  by (subst finish_loop.simps) (simp add: Let_def)

lemma resume_under_DetectType:
  "resume format \<lparr>p_state = done # DetectType # below, p_pos = inp, p_result = r, p_is_error = False\<rparr>
     = resume format \<lparr>p_state = DetectType # below, p_pos = inp, p_result = r, p_is_error = False\<rparr>"
  by (simp add: resume_def finish_loop_pop finish_state_def)

lemma StateBinNumber_read:
  assumes "length bs < 256"
  shows "parse_state_StateBinNumber (of_nat (length bs)) negative accum
           \<lparr>p_state = st, p_pos = bs @ inp, p_result = r, p_is_error = e\<rparr>
       = (False, \<lparr>p_state = StateBinNumber 0 negative (read_bytes accum bs) # tl st, p_pos = inp,
                   p_result = (if negative then Int64 (- read_bytes accum bs)
                               else Uint64 (read_bytes accum bs)),
                   p_is_error = e\<rparr>)"
  using assms
proof (induction bs arbitrary: accum)
  case Nil
  then show ?case
    by (subst parse_state_StateBinNumber.simps)
       (simp add: set_back_def read_bytes_def split: list.splits)
next
  case (Cons c bs)
  have "unat (of_nat (Suc (length bs)) :: 8 word) = Suc (length bs) mod 2 ^ 8"
    by (simp only: unat_of_nat) simp
  also have "\<dots> = Suc (length bs)"
    using Cons.prems by simp
  finally have "unat (of_nat (Suc (length bs)) :: 8 word) = Suc (length bs)" .
  then have ne: "(of_nat (Suc (length bs)) :: 8 word) \<noteq> 0"
    by (metis Zero_not_Suc unat_0) 
  have m: "(1 :: 8 word) + of_nat (length bs) - 1 = of_nat (length bs)" by simp
  from Cons.prems Cons.IH [of "push_bit 8 accum OR of_char c"] ne
  show ?case
    by (subst parse_state_StateBinNumber.simps) (simp add: m read_bytes_def)
qed

lemma StateDoubleNumber_read:
  assumes "length data + length bs = 8" and "bs \<noteq> []"
  shows "parse_state_StateDoubleNumber data
           \<lparr>p_state = st, p_pos = bs @ inp, p_result = r, p_is_error = e\<rparr>
       = (False, \<lparr>p_state = StateDoubleNumber (data @ bs) # tl st, p_pos = inp,
                   p_result = Dnum (double_from_bytes (data @ bs)), p_is_error = e\<rparr>)"
  using assms
proof (induction bs arbitrary: data)
  case Nil
  then show ?case by simp
next
  case (Cons c bs)
  show ?case
  proof (cases "bs = []")
    case True
    with Cons.prems show ?thesis
      by (subst parse_state_StateDoubleNumber.simps) (simp add: set_back_def Let_def)
  next
    case False
    then have "0 < length bs" by simp
    with False Cons.prems Cons.IH [of "data @ [c]"] show ?thesis
      by (subst parse_state_StateDoubleNumber.simps) (simp add: Let_def del: length_greater_0_conv)
  qed
qed

lemma StateBinString_read:
  assumes "length data + length bs = unat sz" and "bs \<noteq> []"
  shows "parse_state_StateBinString is_number sz data
           \<lparr>p_state = st, p_pos = bs @ inp, p_result = r, p_is_error = e\<rparr>
       = (False, \<lparr>p_state = StateBinString is_number sz (data @ bs) # tl st, p_pos = inp,
                   p_result = Value_string_view False (data @ bs) is_number, p_is_error = e\<rparr>)"
  using assms
proof (induction bs arbitrary: data)
  case Nil
  then show ?case by simp
next
  case (Cons c bs)
  show ?case
  proof (cases "bs = []")
    case True
    with Cons.prems show ?thesis
      by (subst parse_state_StateBinString.simps) (simp add: set_back_def Let_def)
  next
    case False
    then have "0 < length bs" by simp
    with False Cons.prems Cons.IH [of "data @ [c]"] show ?thesis
      by (subst parse_state_StateBinString.simps) (simp add: Let_def del: length_greater_0_conv)
  qed
qed

lemma length_double_from [simp]: "length (double_from d) = 8"
  by (simp add: double_from_def)

lemma length_size_bytes [simp]: "length (size_bytes k sz) = k"
  by (induction k) simp_all

lemma double_from_bytes_8:
  "double_from_bytes [b0, b1, b2, b3, b4, b5, b6, b7]
     = of_char b0 OR push_bit 8 (of_char b1) OR push_bit 16 (of_char b2) OR push_bit 24 (of_char b3)
       OR push_bit 32 (of_char b4) OR push_bit 40 (of_char b5) OR push_bit 48 (of_char b6)
       OR push_bit 56 (of_char b7)"
  by (simp add: push_bit_or push_bit_push_bit ac_simps)

lemma double_bytes_roundtrip: "double_from_bytes (double_from d) = d"
proof -
  have u: "[0..<8] = [0, 1, 2, 3, 4, 5, 6, 7 :: nat]"
    by (simp add: upt_rec)
  have "take_bit 8 d OR push_bit 8 (take_bit 8 (drop_bit 8 d))
        OR push_bit 16 (take_bit 8 (drop_bit 16 d)) OR push_bit 24 (take_bit 8 (drop_bit 24 d))
        OR push_bit 32 (take_bit 8 (drop_bit 32 d)) OR push_bit 40 (take_bit 8 (drop_bit 40 d))
        OR push_bit 48 (take_bit 8 (drop_bit 48 d)) OR push_bit 56 (take_bit 8 (drop_bit 56 d)) = d"
    (is "?l = d")
  proof (rule bit_eqI)
    fix n assume "possible_bit TYPE(64 word) n"
    then have n: "n < 64" by (simp add: possible_bit_def)
    consider "n < 8" | "8 \<le> n" "n < 16" | "16 \<le> n" "n < 24" | "24 \<le> n" "n < 32"
      | "32 \<le> n" "n < 40" | "40 \<le> n" "n < 48" | "48 \<le> n" "n < 56" | "56 \<le> n"
      by linarith
    then show "bit ?l n = bit d n"
      using n by cases (auto simp add: bit_simps)
  qed
  then show ?thesis
    unfolding double_from_def u
    by (simp only: list.map double_from_bytes_8 and_255 of_char_byte64 mult_zero_right drop_bit_0)
       simp
qed

text \<open>The header byte of a tag with a size, taken apart as \<^verbatim>\<open>parse_state(DetectType &)\<close> does.\<close>

lemma header_byte:
  assumes "1 \<le> k" and "k \<le> 8"
    and "t \<in> {BinaryType_p_number, BinaryType_n_number, BinaryType_string,
               BinaryType_string_number, BinaryType_array, BinaryType_object}"
  shows "(t OR of_nat (k - 1)) AND BinaryType_mask = t"
    and "((t OR of_nat (k - 1)) AND BinaryType_size_mask) + 1 = (of_nat k :: 8 word)"
proof -
  from assms(1,2) have "k \<in> {1, 2, 3, 4, 5, 6, 7, 8}" by (simp; arith)
  with assms(3) show "(t OR of_nat (k - 1)) AND BinaryType_mask = t"
    and "((t OR of_nat (k - 1)) AND BinaryType_size_mask) + 1 = (of_nat k :: 8 word)"
    by (auto simp: BinaryType_mask_def BinaryType_size_mask_def BinaryType_p_number_def
        BinaryType_n_number_def BinaryType_string_def BinaryType_string_number_def
        BinaryType_array_def BinaryType_object_def)
qed

lemmas BinaryType_defs =
  BinaryType_mask_def BinaryType_size_mask_def BinaryType_simple_def BinaryType_null_def
  BinaryType_bool_true_def BinaryType_bool_false_def BinaryType_double_number_def
  BinaryType_undefined_def BinaryType_p_number_def BinaryType_n_number_def
  BinaryType_string_def BinaryType_string_number_def BinaryType_array_def BinaryType_object_def

lemma DetectType_sized:
  assumes k: "1 \<le> k" "k \<le> 8"
    and t: "t \<in> {BinaryType_p_number, BinaryType_n_number, BinaryType_string,
                  BinaryType_string_number, BinaryType_array, BinaryType_object}"
  shows "parse_state_DetectType_binary
           \<lparr>p_state = st, p_pos = char_of (unat (t OR of_nat (k - 1))) # bytes, p_result = r,
            p_is_error = e\<rparr>
       = (True, \<lparr>p_state = StateBinNumber (of_nat k) (t = BinaryType_n_number) 0 # header_frames t @ st,
                  p_pos = bytes, p_result = r, p_is_error = e\<rparr>)"
proof -
  note h = header_byte [OF k t]
  from t consider (a) "t = BinaryType_p_number" | (b) "t = BinaryType_n_number"
    | (c) "t = BinaryType_string" | (d) "t = BinaryType_string_number"
    | (e) "t = BinaryType_array" | (f) "t = BinaryType_object"
    by auto
  then show ?thesis
  proof cases
    case a
    note h' = h [unfolded a]
    show ?thesis
      using h' unfolding a parse_state_DetectType_binary_def
      by (simp add: Let_def push_back_def header_frames_def BinaryType_defs)
  next
    case b
    note h' = h [unfolded b]
    show ?thesis
      using h' unfolding b parse_state_DetectType_binary_def
      by (simp add: Let_def push_back_def header_frames_def BinaryType_defs)
  next
    case c
    note h' = h [unfolded c]
    show ?thesis
      using h' unfolding c parse_state_DetectType_binary_def
      by (simp add: Let_def push_back_def header_frames_def BinaryType_defs)
  next
    case d
    note h' = h [unfolded d]
    show ?thesis
      using h' unfolding d parse_state_DetectType_binary_def
      by (simp add: Let_def push_back_def header_frames_def BinaryType_defs)
  next
    case e
    note h' = h [unfolded e]
    show ?thesis
      using h' unfolding e parse_state_DetectType_binary_def
      by (simp add: Let_def push_back_def header_frames_def BinaryType_defs)
  next
    case f
    note h' = h [unfolded f]
    show ?thesis
      using h' unfolding f parse_state_DetectType_binary_def
      by (simp add: Let_def push_back_def header_frames_def BinaryType_defs)
  qed
qed

lemma count_bytes_range:
  "1 \<le> max 1 (count_bytes_loop 8 sz 0)" "max 1 (count_bytes_loop 8 sz 0) \<le> 8"
  using count_bytes_loop_le [of 8 sz] by simp_all

lemma read_header:
  assumes t: "t \<in> {BinaryType_p_number, BinaryType_n_number, BinaryType_string,
                    BinaryType_string_number, BinaryType_array, BinaryType_object}"
  shows "write_loop Format_binary
           \<lparr>p_state = DetectType # rest, p_pos = render_binary_type_size t sz @ inp, p_result = r,
            p_is_error = False\<rparr>
       = resume Format_binary \<lparr>p_state = StateBinNumber 0 (t = BinaryType_n_number) sz # header_frames t @ DetectType # rest,
                 p_pos = inp,
                 p_result = (if t = BinaryType_n_number then Int64 (- sz) else Uint64 sz),
                 p_is_error = False\<rparr>"
proof -
  define k where "k = max 1 (count_bytes_loop 8 sz 0)"
  have k: "1 \<le> k" "k \<le> 8"
    unfolding k_def by (rule count_bytes_range)+
  have enc: "render_binary_type_size t sz = char_of (unat (t OR of_nat (k - 1))) # size_bytes k sz"
    by (simp add: render_binary_type_size_def k_def Let_def)
  have rd: "read_bytes 0 (size_bytes k sz) = sz"
    unfolding read_bytes_def read_size_bytes k_def
    using count_bytes_fits [of sz] by simp
  have ne: "size_bytes k sz @ inp \<noteq> []"
    using k by (cases k) simp_all
  have "write_loop Format_binary
           \<lparr>p_state = DetectType # rest, p_pos = render_binary_type_size t sz @ inp, p_result = r,
            p_is_error = False\<rparr>
      = write_loop Format_binary
           \<lparr>p_state = StateBinNumber (of_nat k) (t = BinaryType_n_number) 0 # header_frames t @ DetectType # rest,
            p_pos = size_bytes k sz @ inp, p_result = r, p_is_error = False\<rparr>"
    using DetectType_sized [OF k t, of "DetectType # rest" "size_bytes k sz @ inp" r False]
    by (intro write_loop_more [where st = DetectType and below = rest])
       (simp_all add: enc parse_state_def)
  also have "\<dots> = resume Format_binary \<lparr>p_state = StateBinNumber 0 (t = BinaryType_n_number) sz # header_frames t @ DetectType # rest,
                 p_pos = inp,
                 p_result = (if t = BinaryType_n_number then Int64 (- sz) else Uint64 sz),
                 p_is_error = False\<rparr>"
  proof (rule write_loop_finish [where st = "StateBinNumber (of_nat k) (t = BinaryType_n_number) 0"
                                  and below = "header_frames t @ DetectType # rest"])
    show "p_pos \<lparr>p_state = StateBinNumber (of_nat k) (t = BinaryType_n_number) 0 # header_frames t @ DetectType # rest,
            p_pos = size_bytes k sz @ inp, p_result = r, p_is_error = False\<rparr> \<noteq> []"
      using ne by simp
    have "length (size_bytes k sz) < 256" using k by simp
    from StateBinNumber_read [OF this, of "t = BinaryType_n_number" 0 _ inp r False]
    show "parse_state Format_binary (StateBinNumber (of_nat k) (t = BinaryType_n_number) 0)
            \<lparr>p_state = StateBinNumber (of_nat k) (t = BinaryType_n_number) 0 # header_frames t @ DetectType # rest,
             p_pos = size_bytes k sz @ inp, p_result = r, p_is_error = False\<rparr>
          = Some (False, \<lparr>p_state = StateBinNumber 0 (t = BinaryType_n_number) sz # header_frames t @ DetectType # rest,
                 p_pos = inp,
                 p_result = (if t = BinaryType_n_number then Int64 (- sz) else Uint64 sz),
                 p_is_error = False\<rparr>)"
      by (simp add: parse_state_def rd)
  qed simp
  finally show ?thesis .
qed

lemma resume_pop:
  "resume format \<lparr>p_state = done # st # below, p_pos = inp, p_result = r, p_is_error = False\<rparr>
     = (case finish_state st \<lparr>p_state = st # below, p_pos = inp, p_result = r, p_is_error = False\<rparr> of
          (need_more, p') \<Rightarrow> if need_more then write_loop format p' else resume format p')"
  by (simp add: resume_def finish_loop_pop split: prod.splits)

lemma visit_Value_string_view [simp]:
  "visit (Value_string_view False s is_number) = V_string_view s"
proof (cases "length s < 15")
  case True
  then show ?thesis
    using short_tag_low [of "length s" is_number]
    by (simp add: Value_string_view_def)
next
  case False
  then show ?thesis
    by (simp add: Value_string_view_def)
qed

lemma get_unsigned_long_Uint64 [simp]: "get_unsigned_long (Uint64 a) = a"
  by (simp add: get_unsigned_long_def)

lemma unat_length:
  "n < 2 ^ 64 \<Longrightarrow> unat (of_nat n :: 64 word) = n"
  by (simp add: unat_of_nat)

lemma of_nat_length_0:
  "n < 2 ^ 64 \<Longrightarrow> ((of_nat n :: 64 word) = 0) = (n = 0)"
proof
  assume n: "n < 2 ^ 64" and z: "(of_nat n :: 64 word) = 0"
  from z have "unat (of_nat n :: 64 word) = 0" by simp
  with unat_length [OF n] show "n = 0" by simp
qed simp

lemma read_string:
  assumes len: "length s < 2 ^ 64"
  shows "write_loop Format_binary
           \<lparr>p_state = DetectType # rest, p_pos = render_string_view Format_binary s t @ inp,
            p_result = r, p_is_error = False\<rparr>
       = resume Format_binary \<lparr>p_state = DetectType # rest, p_pos = inp,
                 p_result = (if s = [] then Value_string_view False [] False
                             else Value_string_view False s (t = Type_number)),
                 p_is_error = False\<rparr>"
proof -
  define T where "T = (if t = Type_number then BinaryType_string_number else BinaryType_string)"
  define sz :: "64 word" where "sz = of_nat (length s)"
  have T: "T \<in> {BinaryType_p_number, BinaryType_n_number, BinaryType_string,
                  BinaryType_string_number, BinaryType_array, BinaryType_object}"
    by (simp add: T_def)
  have Tn: "T \<noteq> BinaryType_n_number"
    by (simp add: T_def BinaryType_defs)
  have fr: "header_frames T = [StateBinString (t = Type_number) 0 []]"
    by (simp add: T_def header_frames_def BinaryType_defs)
  have enc: "render_string_view Format_binary s t @ inp = render_binary_type_size T sz @ s @ inp"
    by (simp add: render_string_view_def T_def sz_def)
  have sz0: "sz = 0 \<longleftrightarrow> s = []"
    using of_nat_length_0 [OF len] by (simp add: sz_def)
  have usz: "unat sz = length s"
    using unat_length [OF len] by (simp add: sz_def)
  have 1: "write_loop Format_binary
           \<lparr>p_state = DetectType # rest, p_pos = render_string_view Format_binary s t @ inp,
            p_result = r, p_is_error = False\<rparr>
      = resume Format_binary \<lparr>p_state = StateBinNumber 0 False sz # StateBinString (t = Type_number) 0 [] # DetectType # rest,
                 p_pos = s @ inp, p_result = Uint64 sz, p_is_error = False\<rparr>"
    unfolding enc using read_header [OF T, of rest sz "s @ inp" r] Tn fr by simp
  show ?thesis
  proof (cases "s = []")
    case True
    with sz0 have z: "sz = 0" by simp
    show ?thesis
      unfolding 1
      by (simp add: resume_pop finish_state_def set_back_def Let_def z True resume_under_DetectType)
  next
    case False
    with sz0 have nz: "sz \<noteq> 0" by simp
    have "resume Format_binary \<lparr>p_state = StateBinNumber 0 False sz # StateBinString (t = Type_number) 0 [] # DetectType # rest,
                 p_pos = s @ inp, p_result = Uint64 sz, p_is_error = False\<rparr>
        = write_loop Format_binary
            \<lparr>p_state = StateBinString (t = Type_number) sz [] # DetectType # rest,
             p_pos = s @ inp, p_result = Uint64 sz, p_is_error = False\<rparr>"
      by (simp add: resume_pop finish_state_def set_back_def Let_def nz)
    also have "\<dots> = resume Format_binary \<lparr>p_state = StateBinString (t = Type_number) sz s # DetectType # rest,
             p_pos = inp, p_result = Value_string_view False s (t = Type_number), p_is_error = False\<rparr>"
      using StateBinString_read [of "[]" s sz "t = Type_number" _ inp "Uint64 sz" False] False usz
      by (intro write_loop_finish [where st = "StateBinString (t = Type_number) sz []"
                                     and below = "DetectType # rest"])
         (simp_all add: parse_state_def)
    finally show ?thesis
      unfolding 1 using False by (simp add: resume_under_DetectType)
  qed
qed

lemma resume_top:
  "resume format \<lparr>p_state = done # below, p_pos = inp, p_result = r, p_is_error = False\<rparr>
     = resume format \<lparr>p_state = DetectType # below, p_pos = inp, p_result = r, p_is_error = False\<rparr>"
  unfolding resume_def
  by (subst finish_loop.simps, subst (2) finish_loop.simps) simp

lemma joined_binary: "joined Format_binary items = concat items"
  by (cases items) (simp_all add: joined_def separated_def separator_def)

lemma encoding_binary_array:
  "visit v = V_Container_Value a \<Longrightarrow>
   encoding print_normal Format_binary v
     = render_binary_type_size BinaryType_array (of_nat (length a))
       @ concat (map (encoding print_normal Format_binary) a)"
  by (subst encoding.simps)
     (simp add: array_open_def array_close_def joined_binary skipped_def)

lemma encoding_binary_object:
  "visit v = V_Container_KeyValue a \<Longrightarrow>
   encoding print_normal Format_binary v
     = render_binary_type_size BinaryType_object (of_nat (length a))
       @ concat (map (\<lambda>kv. render_string_view Format_binary (get_string (fst kv)) Type_string
                           @ encoding print_normal Format_binary (snd kv)) a)"
  by (subst encoding.simps)
     (simp add: object_open_def object_close_def joined_binary skipped_def render_key_def colon_def)

text \<open>The elements of an array, read one after the other.\<close>

lemma read_elements:
  assumes IH: "\<And>x rest inp r. x \<in> set xs \<Longrightarrow>
      write_loop Format_binary
        \<lparr>p_state = DetectType # rest, p_pos = encoding print_normal Format_binary x @ inp,
         p_result = r, p_is_error = False\<rparr>
      = resume Format_binary \<lparr>p_state = DetectType # rest, p_pos = inp, p_result = reparsed x,
                p_is_error = False\<rparr>"
    and len: "length data + length xs = unat n" and ne: "xs \<noteq> []"
  shows "write_loop Format_binary
           \<lparr>p_state = DetectType # StateBinArray n data # below,
            p_pos = concat (map (encoding print_normal Format_binary) xs) @ inp,
            p_result = r, p_is_error = False\<rparr>
       = resume Format_binary \<lparr>p_state = DetectType # below, p_pos = inp,
                 p_result = Value_Values (data @ map reparsed xs), p_is_error = False\<rparr>"
  using assms
proof (induction xs arbitrary: data r)
  case Nil
  then show ?case by simp
next
  case (Cons x xs)
  from Cons.prems(2) have nz: "n \<noteq> 0"
    by (metis add_is_0 length_0_conv list.distinct(1) unat_0)
  have 1: "write_loop Format_binary
           \<lparr>p_state = DetectType # StateBinArray n data # below,
            p_pos = concat (map (encoding print_normal Format_binary) (x # xs)) @ inp,
            p_result = r, p_is_error = False\<rparr>
      = resume Format_binary \<lparr>p_state = DetectType # StateBinArray n data # below,
            p_pos = concat (map (encoding print_normal Format_binary) xs) @ inp,
            p_result = reparsed x, p_is_error = False\<rparr>"
    using Cons.prems(1) [of x "StateBinArray n data # below"
        "concat (map (encoding print_normal Format_binary) xs) @ inp" r]
    by simp
  show ?case
  proof (cases "xs = []")
    case True
    with Cons.prems(2) have "\<not> Suc (length data) < unat n" by simp
    then show ?thesis
      unfolding 1 using nz True
      by (simp add: resume_pop finish_state_def Let_def set_back_def
                    resume_top [of _ "StateBinArray n []"])
  next
    case False
    with Cons.prems(2) have lt: "Suc (length data) < unat n"
      by (cases xs) simp_all
    have IH': "write_loop Format_binary
           \<lparr>p_state = DetectType # StateBinArray n (data @ [reparsed x]) # below,
            p_pos = concat (map (encoding print_normal Format_binary) xs) @ inp,
            p_result = reparsed x, p_is_error = False\<rparr>
       = resume Format_binary \<lparr>p_state = DetectType # below, p_pos = inp,
                 p_result = Value_Values ((data @ [reparsed x]) @ map reparsed xs),
                 p_is_error = False\<rparr>"
      using Cons.prems(1,2) False
      by (intro Cons.IH) simp_all
    show ?thesis
      unfolding 1 using nz lt IH'
      by (simp add: resume_pop finish_state_def Let_def set_back_def push_back_def)
  qed
qed

text \<open>The entries of an object, read one after the other: the key, then the value.\<close>

lemma read_members:
  assumes IH: "\<And>kv rest inp r. kv \<in> set kvs \<Longrightarrow>
      write_loop Format_binary
        \<lparr>p_state = DetectType # rest, p_pos = encoding print_normal Format_binary (snd kv) @ inp,
         p_result = r, p_is_error = False\<rparr>
      = resume Format_binary \<lparr>p_state = DetectType # rest, p_pos = inp, p_result = reparsed (snd kv),
                p_is_error = False\<rparr>"
    and keys: "\<And>kv. kv \<in> set kvs \<Longrightarrow> length (get_string (fst kv)) < 2 ^ 64"
    and len: "length data + length kvs = unat n" and ne: "kvs \<noteq> []"
  shows "write_loop Format_binary
           \<lparr>p_state = DetectType # StateBinObject True key data n # below,
            p_pos = concat (map (\<lambda>kv. render_string_view Format_binary (get_string (fst kv)) Type_string
                                      @ encoding print_normal Format_binary (snd kv)) kvs) @ inp,
            p_result = r, p_is_error = False\<rparr>
       = resume Format_binary \<lparr>p_state = DetectType # below, p_pos = inp,
                 p_result = Value_KeyValues
                   (data @ map (\<lambda>kv. KeyValue (get_string (fst kv)) (reparsed (snd kv))) kvs),
                 p_is_error = False\<rparr>"
  using assms
proof (induction kvs arbitrary: data r key)
  case Nil
  then show ?case by simp
next
  case (Cons kv kvs)
  let ?enc = "\<lambda>kv. render_string_view Format_binary (get_string (fst kv)) Type_string
                     @ encoding print_normal Format_binary (snd kv)"
  let ?k = "Value_string_view False (get_string (fst kv)) False"
  from Cons.prems(3) have nz: "n \<noteq> 0"
    by (metis add_is_0 length_0_conv list.distinct(1) unat_0)
  have klen: "length (get_string (fst kv)) < 2 ^ 64"
    using Cons.prems(2) [of kv] by simp
  have 1: "write_loop Format_binary
           \<lparr>p_state = DetectType # StateBinObject True key data n # below,
            p_pos = concat (map ?enc (kv # kvs)) @ inp,
            p_result = r, p_is_error = False\<rparr>
      = resume Format_binary \<lparr>p_state = DetectType # StateBinObject True key data n # below,
            p_pos = encoding print_normal Format_binary (snd kv) @ concat (map ?enc kvs) @ inp,
            p_result = ?k, p_is_error = False\<rparr>"
    using read_string [OF klen, of "StateBinObject True key data n # below" Type_string
        "encoding print_normal Format_binary (snd kv) @ concat (map ?enc kvs) @ inp" r]
    by simp
  have 2: "resume Format_binary \<lparr>p_state = DetectType # StateBinObject True key data n # below,
            p_pos = encoding print_normal Format_binary (snd kv) @ concat (map ?enc kvs) @ inp,
            p_result = ?k, p_is_error = False\<rparr>
      = write_loop Format_binary
          \<lparr>p_state = DetectType # StateBinObject False ?k data n # below,
            p_pos = encoding print_normal Format_binary (snd kv) @ concat (map ?enc kvs) @ inp,
            p_result = ?k, p_is_error = False\<rparr>"
    using nz
    by (simp add: resume_pop finish_state_def Let_def set_back_def push_back_def
                  type_Value_string_view)
  have 3: "write_loop Format_binary
          \<lparr>p_state = DetectType # StateBinObject False ?k data n # below,
            p_pos = encoding print_normal Format_binary (snd kv) @ concat (map ?enc kvs) @ inp,
            p_result = ?k, p_is_error = False\<rparr>
      = resume Format_binary \<lparr>p_state = DetectType # StateBinObject False ?k data n # below,
            p_pos = concat (map ?enc kvs) @ inp,
            p_result = reparsed (snd kv), p_is_error = False\<rparr>"
    using Cons.prems(1) [of kv "StateBinObject False ?k data n # below"
        "concat (map ?enc kvs) @ inp" ?k]
    by simp
  have gk: "get_string ?k = get_string (fst kv)"
    by (rule get_string_Value_string_view) simp
  show ?case
  proof (cases "kvs = []")
    case True
    with Cons.prems(3) have "\<not> Suc (length data) < unat n" by simp
    then show ?thesis
      unfolding 1 2 3 using nz True
      by (simp add: resume_pop finish_state_def Let_def set_back_def gk
                    resume_top [of _ "StateBinObject False ?k [] n"])
  next
    case False
    with Cons.prems(3) have lt: "Suc (length data) < unat n"
      by (cases kvs) simp_all
    have IH': "write_loop Format_binary
           \<lparr>p_state = DetectType
               # StateBinObject True ?k (data @ [KeyValue (get_string (fst kv)) (reparsed (snd kv))]) n
               # below,
            p_pos = concat (map ?enc kvs) @ inp,
            p_result = reparsed (snd kv), p_is_error = False\<rparr>
       = resume Format_binary \<lparr>p_state = DetectType # below, p_pos = inp,
                 p_result = Value_KeyValues
                   ((data @ [KeyValue (get_string (fst kv)) (reparsed (snd kv))])
                    @ map (\<lambda>kv. KeyValue (get_string (fst kv)) (reparsed (snd kv))) kvs),
                 p_is_error = False\<rparr>"
      using Cons.prems(1,2,3) False
      by (intro Cons.IH) simp_all
    show ?thesis
      unfolding 1 2 3 using nz lt IH'
      by (simp add: resume_pop finish_state_def Let_def set_back_def push_back_def gk)
  qed
qed

lemma read_simple:
  assumes "parse_state_DetectType_binary
             \<lparr>p_state = DetectType # rest, p_pos = c # inp, p_result = r, p_is_error = False\<rparr>
           = (False, \<lparr>p_state = DetectType # rest, p_pos = inp, p_result = v, p_is_error = False\<rparr>)"
  shows "write_loop Format_binary
           \<lparr>p_state = DetectType # rest, p_pos = c # inp, p_result = r, p_is_error = False\<rparr>
       = resume Format_binary \<lparr>p_state = DetectType # rest, p_pos = inp, p_result = v, p_is_error = False\<rparr>"
  using assms
  by (intro write_loop_finish [where st = DetectType and below = rest])
     (simp_all add: parse_state_def)

lemma read_double:
  "write_loop Format_binary
     \<lparr>p_state = DetectType # rest,
      p_pos = char_of (unat BinaryType_double_number) # double_from d @ inp, p_result = r,
      p_is_error = False\<rparr>
   = resume Format_binary \<lparr>p_state = DetectType # rest, p_pos = inp, p_result = Dnum d, p_is_error = False\<rparr>"
proof -
  have "write_loop Format_binary
     \<lparr>p_state = DetectType # rest,
      p_pos = char_of (unat BinaryType_double_number) # double_from d @ inp, p_result = r,
      p_is_error = False\<rparr>
    = write_loop Format_binary
     \<lparr>p_state = StateDoubleNumber [] # DetectType # rest,
      p_pos = double_from d @ inp, p_result = r, p_is_error = False\<rparr>"
    by (intro write_loop_more [where st = DetectType and below = rest])
       (simp_all add: parse_state_def parse_state_DetectType_binary_def Let_def push_back_def,
        simp_all add: BinaryType_defs)
  also have "\<dots> = resume Format_binary \<lparr>p_state = StateDoubleNumber (double_from d) # DetectType # rest,
      p_pos = inp, p_result = Dnum d, p_is_error = False\<rparr>"
  proof -
    have ne: "double_from d \<noteq> []"
      using length_double_from [of d] by (cases "double_from d") simp_all
    from StateDoubleNumber_read [of "[]" "double_from d" _ inp r False] ne
    show ?thesis
      by (intro write_loop_finish [where st = "StateDoubleNumber []"
                                     and below = "DetectType # rest"])
         (simp_all add: parse_state_def double_bytes_roundtrip)
  qed
  finally show ?thesis
    by (simp add: resume_under_DetectType)
qed

lemma read_number:
  assumes t: "t = BinaryType_p_number \<or> t = BinaryType_n_number"
  shows "write_loop Format_binary
           \<lparr>p_state = DetectType # rest, p_pos = render_binary_type_size t sz @ inp, p_result = r,
            p_is_error = False\<rparr>
       = resume Format_binary \<lparr>p_state = DetectType # rest, p_pos = inp,
                 p_result = (if t = BinaryType_n_number then Int64 (- sz) else Uint64 sz),
                 p_is_error = False\<rparr>"
proof -
  from t have T: "t \<in> {BinaryType_p_number, BinaryType_n_number, BinaryType_string,
                  BinaryType_string_number, BinaryType_array, BinaryType_object}"
    by auto
  from t have fr: "header_frames t = []"
    by (auto simp: header_frames_def BinaryType_defs)
  show ?thesis
    using read_header [OF T, of rest sz inp r]
    by (simp add: fr resume_under_DetectType)
qed

lemma header_frames_array: "header_frames BinaryType_array = [StateBinArray 0 []]"
  by (simp add: header_frames_def BinaryType_defs)

lemma header_frames_object:
  "header_frames BinaryType_object = [StateBinObject False Undefined [] 0]"
  by (simp add: header_frames_def BinaryType_defs)

lemma read_array:
  assumes IH: "\<And>x rest inp r. x \<in> set a \<Longrightarrow>
      write_loop Format_binary
        \<lparr>p_state = DetectType # rest, p_pos = encoding print_normal Format_binary x @ inp,
         p_result = r, p_is_error = False\<rparr>
      = resume Format_binary \<lparr>p_state = DetectType # rest, p_pos = inp, p_result = reparsed x,
                p_is_error = False\<rparr>"
    and len: "length a < 2 ^ 64"
  shows "write_loop Format_binary
           \<lparr>p_state = DetectType # rest,
            p_pos = (render_binary_type_size BinaryType_array (of_nat (length a))
                     @ concat (map (encoding print_normal Format_binary) a)) @ inp,
            p_result = r, p_is_error = False\<rparr>
       = resume Format_binary \<lparr>p_state = DetectType # rest, p_pos = inp,
                 p_result = Value_Values (map reparsed a), p_is_error = False\<rparr>"
proof -
  define sz :: "64 word" where "sz = of_nat (length a)"
  let ?rest = "concat (map (encoding print_normal Format_binary) a) @ inp"
  have sz0: "sz = 0 \<longleftrightarrow> a = []"
    using of_nat_length_0 [OF len] by (simp add: sz_def)
  have usz: "unat sz = length a"
    using unat_length [OF len] by (simp add: sz_def)
  have 1: "write_loop Format_binary
           \<lparr>p_state = DetectType # rest,
            p_pos = (render_binary_type_size BinaryType_array sz
                     @ concat (map (encoding print_normal Format_binary) a)) @ inp,
            p_result = r, p_is_error = False\<rparr>
      = resume Format_binary \<lparr>p_state = StateBinNumber 0 False sz # StateBinArray 0 [] # DetectType # rest,
                 p_pos = ?rest, p_result = Uint64 sz, p_is_error = False\<rparr>"
    using read_header [of BinaryType_array rest sz ?rest r]
    by (simp add: header_frames_array) (simp add: BinaryType_defs)
  show ?thesis
  proof (cases "a = []")
    case True
    with sz0 have z: "sz = 0" by simp
    show ?thesis
      unfolding sz_def [symmetric] 1
      by (simp add: resume_pop finish_state_def set_back_def Let_def z True
                    resume_under_DetectType Value_Values_def)
  next
    case False
    with sz0 have nz: "sz \<noteq> 0" by simp
    have "resume Format_binary \<lparr>p_state = StateBinNumber 0 False sz # StateBinArray 0 [] # DetectType # rest,
                 p_pos = ?rest, p_result = Uint64 sz, p_is_error = False\<rparr>
        = write_loop Format_binary
            \<lparr>p_state = DetectType # StateBinArray sz [] # DetectType # rest,
             p_pos = ?rest, p_result = Uint64 sz, p_is_error = False\<rparr>"
      by (simp add: resume_pop finish_state_def set_back_def push_back_def Let_def nz)
    also have "\<dots> = resume Format_binary \<lparr>p_state = DetectType # DetectType # rest, p_pos = inp,
                 p_result = Value_Values ([] @ map reparsed a), p_is_error = False\<rparr>"
      using IH usz False by (intro read_elements) simp_all
    finally show ?thesis
      unfolding sz_def [symmetric] 1 by (simp add: resume_under_DetectType)
  qed
qed

lemma read_object:
  assumes IH: "\<And>kv rest inp r. kv \<in> set a \<Longrightarrow>
      write_loop Format_binary
        \<lparr>p_state = DetectType # rest, p_pos = encoding print_normal Format_binary (snd kv) @ inp,
         p_result = r, p_is_error = False\<rparr>
      = resume Format_binary \<lparr>p_state = DetectType # rest, p_pos = inp, p_result = reparsed (snd kv),
                p_is_error = False\<rparr>"
    and keys: "\<And>kv. kv \<in> set a \<Longrightarrow> length (get_string (fst kv)) < 2 ^ 64"
    and len: "length a < 2 ^ 64"
  shows "write_loop Format_binary
           \<lparr>p_state = DetectType # rest,
            p_pos = (render_binary_type_size BinaryType_object (of_nat (length a))
                     @ concat (map (\<lambda>kv. render_string_view Format_binary (get_string (fst kv)) Type_string
                                           @ encoding print_normal Format_binary (snd kv)) a)) @ inp,
            p_result = r, p_is_error = False\<rparr>
       = resume Format_binary \<lparr>p_state = DetectType # rest, p_pos = inp,
                 p_result = Value_KeyValues
                   (map (\<lambda>kv. KeyValue (get_string (fst kv)) (reparsed (snd kv))) a),
                 p_is_error = False\<rparr>"
proof -
  define sz :: "64 word" where "sz = of_nat (length a)"
  let ?rest = "concat (map (\<lambda>kv. render_string_view Format_binary (get_string (fst kv)) Type_string
                                           @ encoding print_normal Format_binary (snd kv)) a) @ inp"
  have sz0: "sz = 0 \<longleftrightarrow> a = []"
    using of_nat_length_0 [OF len] by (simp add: sz_def)
  have usz: "unat sz = length a"
    using unat_length [OF len] by (simp add: sz_def)
  have 1: "write_loop Format_binary
           \<lparr>p_state = DetectType # rest,
            p_pos = (render_binary_type_size BinaryType_object sz
                     @ concat (map (\<lambda>kv. render_string_view Format_binary (get_string (fst kv)) Type_string
                                           @ encoding print_normal Format_binary (snd kv)) a)) @ inp,
            p_result = r, p_is_error = False\<rparr>
      = resume Format_binary \<lparr>p_state = StateBinNumber 0 False sz # StateBinObject False Undefined [] 0
                           # DetectType # rest,
                 p_pos = ?rest, p_result = Uint64 sz, p_is_error = False\<rparr>"
    using read_header [of BinaryType_object rest sz ?rest r]
    by (simp add: header_frames_object) (simp add: BinaryType_defs)
  show ?thesis
  proof (cases "a = []")
    case True
    with sz0 have z: "sz = 0" by simp
    show ?thesis
      unfolding sz_def [symmetric] 1
      by (simp add: resume_pop finish_state_def set_back_def Let_def z True
                    resume_under_DetectType Value_KeyValues_def)
  next
    case False
    with sz0 have nz: "sz \<noteq> 0" by simp
    have "resume Format_binary \<lparr>p_state = StateBinNumber 0 False sz # StateBinObject False Undefined [] 0
                           # DetectType # rest,
                 p_pos = ?rest, p_result = Uint64 sz, p_is_error = False\<rparr>
        = write_loop Format_binary
            \<lparr>p_state = DetectType # StateBinObject True Undefined [] sz # DetectType # rest,
             p_pos = ?rest, p_result = Uint64 sz, p_is_error = False\<rparr>"
      by (simp add: resume_pop finish_state_def set_back_def push_back_def Let_def nz)
    also have "\<dots> = resume Format_binary \<lparr>p_state = DetectType # DetectType # rest, p_pos = inp,
                 p_result = Value_KeyValues
                   ([] @ map (\<lambda>kv. KeyValue (get_string (fst kv)) (reparsed (snd kv))) a),
                 p_is_error = False\<rparr>"
      using IH keys usz False by (intro read_members) simp_all
    finally show ?thesis
      unfolding sz_def [symmetric] 1 by (simp add: resume_under_DetectType)
  qed
qed

lemma number_tags:
  "BinaryType_p_number \<noteq> BinaryType_n_number"
  by (simp add: BinaryType_defs)

lemma DetectType_simple:
  "parse_state_DetectType_binary
     \<lparr>p_state = st, p_pos = char_of (unat BinaryType_undefined) # inp, p_result = r, p_is_error = e\<rparr>
   = (False, \<lparr>p_state = st, p_pos = inp, p_result = Undefined, p_is_error = e\<rparr>)"
  "parse_state_DetectType_binary
     \<lparr>p_state = st, p_pos = char_of (unat BinaryType_null) # inp, p_result = r, p_is_error = e\<rparr>
   = (False, \<lparr>p_state = st, p_pos = inp, p_result = Null, p_is_error = e\<rparr>)"
  "parse_state_DetectType_binary
     \<lparr>p_state = st, p_pos = char_of (unat BinaryType_bool_true) # inp, p_result = r, p_is_error = e\<rparr>
   = (False, \<lparr>p_state = st, p_pos = inp, p_result = Bool_true, p_is_error = e\<rparr>)"
  "parse_state_DetectType_binary
     \<lparr>p_state = st, p_pos = char_of (unat BinaryType_bool_false) # inp, p_result = r, p_is_error = e\<rparr>
   = (False, \<lparr>p_state = st, p_pos = inp, p_result = Bool_false, p_is_error = e\<rparr>)"
  by (simp_all add: parse_state_DetectType_binary_def Let_def, simp_all add: BinaryType_defs)

text \<open>The parser reads the bytes of a value and goes on with what \<open>reparsed\<close> gives as the result.\<close>

lemma read_value:
  "fits v \<Longrightarrow>
   write_loop Format_binary
     \<lparr>p_state = DetectType # rest, p_pos = encoding print_normal Format_binary v @ inp,
      p_result = r, p_is_error = False\<rparr>
   = resume Format_binary \<lparr>p_state = DetectType # rest, p_pos = inp, p_result = reparsed v,
             p_is_error = False\<rparr>"
proof (induction v arbitrary: rest inp r rule: reparsed.induct)
  case (1 v)
  note fits = \<open>fits v\<close> [unfolded fits.simps [of v]]
  show ?case
  proof (cases "visit v")
    case (V_string_view a)
    have e: "encoding print_normal Format_binary v = render_string_view Format_binary a (type v)"
      using V_string_view by (subst encoding.simps) (simp add: render_scalar_def)
    have rp: "reparsed v = (if a = [] then Value_string_view False [] False
                            else Value_string_view False a (type v = Type_number))"
      using V_string_view by (subst reparsed.simps) simp
    from fits V_string_view have "length a < 2 ^ 64" by simp
    then show ?thesis
      unfolding e rp by (rule read_string)
  next
    case V_Undefined
    have e: "encoding print_normal Format_binary v = [char_of (unat BinaryType_undefined)]"
      using V_Undefined by (subst encoding.simps) (simp add: render_scalar_def)
    have rp: "reparsed v = Undefined"
      using V_Undefined by (subst reparsed.simps) simp
    show ?thesis
      unfolding e rp by (simp add: read_simple DetectType_simple)
  next
    case V_nullptr
    have e: "encoding print_normal Format_binary v = [char_of (unat BinaryType_null)]"
      using V_nullptr by (subst encoding.simps) (simp add: render_scalar_def)
    have rp: "reparsed v = Null"
      using V_nullptr by (subst reparsed.simps) simp
    show ?thesis
      unfolding e rp by (simp add: read_simple DetectType_simple)
  next
    case (V_bool b)
    have e: "encoding print_normal Format_binary v
               = [char_of (unat (if b then BinaryType_bool_true else BinaryType_bool_false))]"
      using V_bool by (subst encoding.simps) (simp add: render_scalar_def)
    have rp: "reparsed v = (if b then Bool_true else Bool_false)"
      using V_bool by (subst reparsed.simps) simp
    show ?thesis
      unfolding e rp by (cases b) (simp_all add: read_simple DetectType_simple)
  next
    case (V_int32 a)
    have e: "encoding print_normal Format_binary v
               = (if a <s 0 then render_binary_type_size BinaryType_n_number (scast (- a))
                  else render_binary_type_size BinaryType_p_number (scast a))"
      using V_int32 by (subst encoding.simps) (simp add: render_scalar_def)
    have rp: "reparsed v = (if a <s 0 then Int64 (- scast (- a)) else Uint64 (scast a))"
      using V_int32 by (subst reparsed.simps) simp
    show ?thesis
      unfolding e rp by (simp add: read_number number_tags)
  next
    case (V_uint32 a)
    have e: "encoding print_normal Format_binary v
               = render_binary_type_size BinaryType_p_number (ucast a)"
      using V_uint32 by (subst encoding.simps) (simp add: render_scalar_def)
    have rp: "reparsed v = Uint64 (ucast a)"
      using V_uint32 by (subst reparsed.simps) simp
    show ?thesis
      unfolding e rp by (simp add: read_number number_tags)
  next
    case (V_int64 a)
    have e: "encoding print_normal Format_binary v
               = (if a <s 0 then render_binary_type_size BinaryType_n_number (- a)
                  else render_binary_type_size BinaryType_p_number a)"
      using V_int64 by (subst encoding.simps) (simp add: render_scalar_def)
    have rp: "reparsed v = (if a <s 0 then Int64 (- (- a)) else Uint64 a)"
      using V_int64 by (subst reparsed.simps) simp
    show ?thesis
      unfolding e rp by (simp add: read_number number_tags del: minus_minus)
  next
    case (V_uint64 a)
    have e: "encoding print_normal Format_binary v = render_binary_type_size BinaryType_p_number a"
      using V_uint64 by (subst encoding.simps) (simp add: render_scalar_def)
    have rp: "reparsed v = Uint64 a"
      using V_uint64 by (subst reparsed.simps) simp
    show ?thesis
      unfolding e rp by (simp add: read_number number_tags)
  next
    case (V_double d)
    have e: "encoding print_normal Format_binary v
               = char_of (unat BinaryType_double_number) # double_from d"
      using V_double by (subst encoding.simps) (simp add: render_scalar_def)
    have rp: "reparsed v = Dnum d"
      using V_double by (subst reparsed.simps) simp
    show ?thesis
      unfolding e rp using read_double [of rest d inp r] by simp
  next
    case (V_Container_Value a)
    have rp: "reparsed v = Value_Values (map reparsed a)"
      using V_Container_Value by (subst reparsed.simps) simp
    from fits V_Container_Value have len: "length a < 2 ^ 64" and f: "\<And>x. x \<in> set a \<Longrightarrow> fits x"
      by (simp_all add: list_all_iff)
    show ?thesis
      unfolding encoding_binary_array [OF V_Container_Value] rp
      using "1.IH"(1) [OF V_Container_Value] f len
      by (intro read_array) simp_all
  next
    case (V_Container_KeyValue a)
    have rp: "reparsed v
                = Value_KeyValues (map (\<lambda>kv. KeyValue (get_string (fst kv)) (reparsed (snd kv))) a)"
      using V_Container_KeyValue by (subst reparsed.simps) simp
    from fits V_Container_KeyValue have len: "length a < 2 ^ 64"
      and f: "\<And>kv. kv \<in> set a \<Longrightarrow> fits (snd kv)"
      and k: "\<And>kv. kv \<in> set a \<Longrightarrow> length (get_string (fst kv)) < 2 ^ 64"
      by (simp_all add: list_all_iff)
    show ?thesis
      unfolding encoding_binary_object [OF V_Container_KeyValue] rp
      using "1.IH"(2) [OF V_Container_KeyValue] f k len
      by (intro read_object) simp_all
  qed
qed

text \<open>
  What \<^verbatim>\<open>unbinarize(binarize(v))\<close> returns: it returns, without an error, the value
  \<open>reparsed v\<close>.
\<close>

lemma unbinarize_binarize:
  assumes "fits v"
  shows "unbinarize (binarize v) = Some (Inr (reparsed v))"
proof -
  have "write_loop Format_binary
          \<lparr>p_state = [DetectType], p_pos = encoding (\<lambda>d. []) Format_binary v @ [],
           p_result = Undefined, p_is_error = False\<rparr>
      = resume Format_binary \<lparr>p_state = [DetectType], p_pos = [], p_result = reparsed v, p_is_error = False\<rparr>"
    using assms by (rule read_value)
  also have "\<dots> = Some (False, \<lparr>p_state = [], p_pos = [], p_result = reparsed v,
                                   p_is_error = False\<rparr>)"
    unfolding resume_def by (subst finish_loop.simps) simp
  finally show ?thesis
    by (simp add: unbinarize_def parse_with_def Parser_write_def Parser_init_def binarize_encoding
                  is_error_def get_result_def)
qed

lemma key_less_asym: "key_less a b \<Longrightarrow> \<not> key_less b a"
  by (simp add: key_less_def compare_less)

lemma sort_insert_last:
  "(\<And>b. b \<in> set bs \<Longrightarrow> key_less b a) \<Longrightarrow> sort_insert a bs = bs @ [a]"
  by (induction bs) (auto dest: key_less_asym)

lemma sort_object_snoc: "sort_object (xs @ [a]) = sort_insert a (sort_object xs)"
  by (simp add: sort_object_def)

lemma sort_object_ordered: "sorted_wrt key_less xs \<Longrightarrow> sort_object xs = xs"
proof (induction xs rule: rev_induct)
  case Nil
  show ?case by (simp add: sort_object_def)
next
  case (snoc a xs)
  from snoc.prems have s: "sorted_wrt key_less xs" and l: "\<And>b. b \<in> set xs \<Longrightarrow> key_less b a"
    by (simp_all add: sorted_wrt_append)
  from snoc.IH [OF s] sort_insert_last [of xs a] l show ?case
    by (simp add: sort_object_snoc)
qed

lemma visit_Value_Values [simp]: "visit (Value_Values xs) = V_Container_Value xs"
  by (simp add: Value_Values_def)

lemma visit_Value_KeyValues [simp]:
  "visit (Value_KeyValues xs) = V_Container_KeyValue (sort_object xs)"
  by (simp add: Value_KeyValues_def sort_object_def)

lemma double_eq_refl: "\<not> double_isnan d \<Longrightarrow> double_eq d d"
  by (simp add: double_eq_def)

lemma key_less_KeyValue:
  "key_less (KeyValue (get_string (fst x)) u) (KeyValue (get_string (fst y)) w) = key_less x y"
  by (simp add: key_less_def key_string_def [of x] key_string_def [of y])

lemma string_key:
  "(case visit k of V_string_view s \<Rightarrow> True | _ \<Rightarrow> False) \<Longrightarrow> \<exists>s. visit k = V_string_view s"
  by (cases "visit k") simp_all

text \<open>The value that comes back equals the original when the original is \<open>binary_exact\<close>.\<close>

lemma equal_reparsed: "binary_exact v \<Longrightarrow> equal (reparsed v) v"
proof (induction v rule: reparsed.induct)
  case (1 v)
  note ex = \<open>binary_exact v\<close> [unfolded binary_exact.simps [of v]]
  show ?case
  proof (cases "visit v")
    case (V_Container_Value a)
    have rp: "reparsed v = Value_Values (map reparsed a)"
      using V_Container_Value by (subst reparsed.simps) simp
    from ex V_Container_Value have "\<And>x. x \<in> set a \<Longrightarrow> binary_exact x"
      by (simp add: list_all_iff)
    with "1.IH"(1) [OF V_Container_Value] have "\<And>x. x \<in> set a \<Longrightarrow> equal (reparsed x) x"
      by simp
    then have "list_all2 equal (map reparsed a) a"
      by (simp add: list_all2_map1 list_all2_same)
    then show ?thesis
      unfolding rp using V_Container_Value by (subst equal.simps) simp
  next
    case (V_Container_KeyValue a)
    let ?f = "\<lambda>kv. KeyValue (get_string (fst kv)) (reparsed (snd kv))"
    have rp: "reparsed v = Value_KeyValues (map ?f a)"
      using V_Container_KeyValue by (subst reparsed.simps) simp
    from ex V_Container_KeyValue have ex': "\<And>kv. kv \<in> set a \<Longrightarrow> binary_exact (snd kv)"
      and k0: "\<And>kv. kv \<in> set a \<Longrightarrow> (case visit (fst kv) of V_string_view s \<Rightarrow> True | _ \<Rightarrow> False)"
      and s: "sorted_wrt key_less a"
      by (simp_all add: list_all_iff)
    have k: "\<exists>s. visit (fst kv) = V_string_view s" if "kv \<in> set a" for kv
      using k0 [OF that] by (rule string_key)
    from s have "sorted_wrt key_less (map ?f a)"
      by (simp add: sorted_wrt_map key_less_KeyValue)
    then have so: "sort_object (map ?f a) = map ?f a"
      by (rule sort_object_ordered)
    have "equal (fst (?f kv)) (fst kv) \<and> equal (snd (?f kv)) (snd kv)" if "kv \<in> set a" for kv
    proof -
      from k [OF that] obtain s where s: "visit (fst kv) = V_string_view s" by blast
      then have "get_string (fst kv) = s" by (simp add: get_string_def)
      with s have "equal (fst (?f kv)) (fst kv)"
        by (subst equal.simps) (simp add: KeyValue_def)
      moreover have "equal (snd (?f kv)) (snd kv)"
        using "1.IH"(2) [OF V_Container_KeyValue that] ex' [OF that] by simp
      ultimately show ?thesis ..
    qed
    then have "list_all2 (\<lambda>x y. equal (fst x) (fst y) \<and> equal (snd x) (snd y)) (map ?f a) a"
      by (simp add: list_all2_map1 list_all2_same)
    then show ?thesis
      unfolding rp using V_Container_KeyValue by (subst equal.simps) (simp add: so)
  qed (use ex in \<open>subst reparsed.simps, subst equal.simps, simp add: double_eq_refl\<close>)+
qed

subsection \<open>The round trip through the binary format\<close>

text \<open>
  C1, as the code has it.  For a value \<open>v\<close> with no \<^verbatim>\<open>undefined\<close> and no NaN at any depth,
  whose integers are held as \<^verbatim>\<open>uint64\<close> or as an \<^verbatim>\<open>int64\<close> below zero and whose objects have
  strings as keys, in strictly ascending order (\<open>binary_exact\<close>), the call
  \<^verbatim>\<open>unbinarize(binarize(v))\<close> returns a value \<open>w\<close> with \<^verbatim>\<open>w == v\<close>.  The premise \<open>fits\<close> bounds the
  lengths of the model by \<open>2\<^sup>6\<^sup>4\<close>, as \<^verbatim>\<open>std::size_t\<close> does in the program.
\<close>

theorem binary_roundtrip:
  assumes "fits v" and "binary_exact v"
  shows "case unbinarize (binarize v) of Some (Inr w) \<Rightarrow> equal w v | _ \<Rightarrow> False"
  using unbinarize_binarize [OF assms(1)] equal_reparsed [OF assms(2)] by simp

text \<open>
  The premises of C1 hold for the array
  \<^verbatim>\<open>[5, -3, "hi", 1.5, {"a": null, "b": [true, {}]}]\<close> with the integers held as \<^verbatim>\<open>uint64\<close> and
  \<^verbatim>\<open>int64\<close>, and the round trip gives an equal value.
\<close>

theorem binary_roundtrip_witness:
  "fits (Array [Uint64 5, Int64 (- 3), Value_string_view False ''hi'' False, Dnum 0x3FF8000000000000,
                Object [KeyValue ''a'' Null, KeyValue ''b'' (Array [Bool_true, Empty_object])]])
   \<and> binary_exact (Array [Uint64 5, Int64 (- 3), Value_string_view False ''hi'' False, Dnum 0x3FF8000000000000,
                Object [KeyValue ''a'' Null, KeyValue ''b'' (Array [Bool_true, Empty_object])]])
   \<and> (case unbinarize (binarize (Array [Uint64 5, Int64 (- 3), Value_string_view False ''hi'' False,
                Dnum 0x3FF8000000000000,
                Object [KeyValue ''a'' Null, KeyValue ''b'' (Array [Bool_true, Empty_object])]]))
       of Some (Inr w) \<Rightarrow>
            equal w (Array [Uint64 5, Int64 (- 3), Value_string_view False ''hi'' False,
                Dnum 0x3FF8000000000000,
                Object [KeyValue ''a'' Null, KeyValue ''b'' (Array [Bool_true, Empty_object])]])
        | _ \<Rightarrow> False)"
proof -
  let ?v = "Array [Uint64 5, Int64 (- 3), Value_string_view False ''hi'' False, Dnum 0x3FF8000000000000,
                Object [KeyValue ''a'' Null, KeyValue ''b'' (Array [Bool_true, Empty_object])]]"
  have f: "fits ?v" by (simp add: fits.simps KeyValue_def get_string_def)
  have b: "binary_exact ?v" by code_simp
  from binary_roundtrip [OF f b] f b show ?thesis by blast
qed

text \<open>
  C1 as stated fails at the top level for \<^verbatim>\<open>undefined\<close>, which comes back as \<^verbatim>\<open>undefined\<close> and
  is equal to nothing, and for the \<^verbatim>\<open>int32\<close> 1, which comes back as the \<^verbatim>\<open>uint64\<close> 1: the
  comparison answers false for two different alternatives.
\<close>

theorem binary_roundtrip_counterexample:
  "unbinarize (binarize Undefined) = Some (Inr Undefined) \<and> \<not> equal Undefined Undefined
   \<and> unbinarize (binarize (Int32 1)) = Some (Inr (Uint64 1)) \<and> \<not> equal (Uint64 1) (Int32 1)"
  by code_simp

section \<open>The text format read back\<close>

subsection \<open>Strings\<close>

















lemma encode_char_not_Nil [simp]: "encode_char c \<noteq> []"
  by (simp add: encode_char_def)



































subsection \<open>The round trip through the text format\<close>




end
